theory Spec2Isabelle
  imports Main "HOL-Library.Word"
begin

unbundle bit_operations_syntax

section \<open>Stream cipher: \<^verbatim>\<open>mdbi_rc4\<close>\<close>

text \<open>
  Source: \<^verbatim>\<open>mdbtools-missing 2.c\<close>, lines 159-192 (the copy in
  \<^verbatim>\<open>MoneyMDBHelpers.c\<close>, lines 124-140, is the same code without comments).

  The table \<^verbatim>\<open>unsigned char s[256]\<close> is a list of 256 bytes. A key buffer is
  the list of its \<^verbatim>\<open>key_len\<close> bytes and a data buffer the list of its
  \<^verbatim>\<open>data_len\<close> bytes; both lengths are \<^verbatim>\<open>size_t\<close>, 64 bits wide on
  the LP64 targets the application is built for.

  The counters \<^verbatim>\<open>i\<close>, \<^verbatim>\<open>j\<close>, \<^verbatim>\<open>k\<close> are
  \<^verbatim>\<open>unsigned int\<close>, 32 bits wide. They are natural numbers here, with the
  reduction the source applies written out: \<^verbatim>\<open>i\<close> and \<^verbatim>\<open>j\<close> are
  either below 257 or assigned modulo 256, so 32 bits never overflow for them;
  \<^verbatim>\<open>k\<close> is incremented by \<^verbatim>\<open>k++\<close> with nothing but the width of its
  type to bound it, so its increment is \<open>(k + 1) mod 2 ^ 32\<close>. In the comparison
  \<^verbatim>\<open>k < data_len\<close> the counter is converted to \<^verbatim>\<open>size_t\<close>, which keeps
  its value.
\<close>

type_synonym byte = "8 word"

text \<open>\<^verbatim>\<open>t = s[i]; s[i] = s[j]; s[j] = (unsigned char)t;\<close>\<close>

definition swap_s :: "byte list \<Rightarrow> nat \<Rightarrow> nat \<Rightarrow> byte list" where
  "swap_s s i j = (let t = s ! i; s1 = s[i := s ! j] in s1[j := t])"

text \<open>The first loop: \<^verbatim>\<open>for (i = 0; i < 256; i++) s[i] = (unsigned char)i;\<close>\<close>

definition rc4_identity :: "byte list" where
  "rc4_identity = map of_nat [0..<256]"

text \<open>
  Key scheduling:
  \<^verbatim>\<open>for (i = 0; i < 256; i++) { j = (j + s[i] + key[i % key_len]) % 256; swap }\<close>
\<close>

function rc4_ksa :: "byte list \<Rightarrow> byte list \<Rightarrow> nat \<Rightarrow> nat \<Rightarrow> byte list" where
  "rc4_ksa key s i j =
     (if i < 256 then
        (let j' = (j + unat (s ! i) + unat (key ! (i mod length key))) mod 256
         in rc4_ksa key (swap_s s i j') (i + 1) j')
      else s)"
  by pat_completeness auto
termination
  by (relation "measure (\<lambda>(key, s, i, j). 256 - i)") auto

declare rc4_ksa.simps [simp del]

text \<open>
  Keystream generation, the loop
  \<^verbatim>\<open>for (k = 0; k < data_len; k++) { i = (i + 1) % 256; j = (j + s[i]) % 256; swap; data[k] ^= s[(s[i] + s[j]) % 256]; }\<close>
  with its state \<^verbatim>\<open>s\<close>, \<^verbatim>\<open>i\<close>, \<^verbatim>\<open>j\<close>, \<^verbatim>\<open>k\<close> and the
  data buffer. The loop is left only when \<^verbatim>\<open>k < data_len\<close> fails; a run that
  never leaves it has the value \<open>None\<close>.
\<close>

partial_function (option) rc4_prga ::
    "byte list \<Rightarrow> nat \<Rightarrow> nat \<Rightarrow> nat \<Rightarrow> byte list \<Rightarrow> byte list option" where
  "rc4_prga s i j k data =
     (if k < length data then
        (let i' = (i + 1) mod 256;
             j' = (j + unat (s ! i')) mod 256;
             s' = swap_s s i' j'
         in rc4_prga s' i' j' ((k + 1) mod 2 ^ 32)
              (data[k := data ! k XOR s' ! ((unat (s' ! i') + unat (s' ! j')) mod 256)]))
      else Some data)"

text \<open>
  The whole call. With \<^verbatim>\<open>key_len = 0\<close> the source divides by zero in
  \<^verbatim>\<open>i % key_len\<close>; the model returns \<open>None\<close> there. Otherwise the call
  returns when its last loop does, and the result is the data buffer at that moment.
\<close>

definition mdbi_rc4 :: "byte list \<Rightarrow> byte list \<Rightarrow> byte list option" where
  "mdbi_rc4 key data =
     (if length key = 0 then None
      else rc4_prga (rc4_ksa key rc4_identity 0 0) 0 0 0 data)"

text \<open>
  What the last loop does to a buffer when it visits every byte once, as a recursion over
  the bytes. This function is not part of the model of the call: the properties section
  compares the loop with it for the buffers on which the counter does not wrap.
\<close>

fun xor_keystream :: "byte list \<Rightarrow> nat \<Rightarrow> nat \<Rightarrow> byte list \<Rightarrow> byte list" where
  "xor_keystream s i j [] = []"
| "xor_keystream s i j (d # ds) =
     (let i' = (i + 1) mod 256;
          j' = (j + unat (s ! i')) mod 256;
          s' = swap_s s i' j'
      in (d XOR s' ! ((unat (s' ! i') + unat (s' ! j')) mod 256)) # xor_keystream s' i' j' ds)"

section \<open>Text transcoder: \<^verbatim>\<open>mdb_unicode2ascii\<close> and \<^verbatim>\<open>mdb_ascii2unicode\<close>\<close>

text \<open>
  Source: \<^verbatim>\<open>mdbtools-missing 2.c\<close>, lines 103-156 (copied in
  \<^verbatim>\<open>MoneyMDBHelpers.c\<close>, lines 89-122).

  A buffer is the memory reachable from a pointer: a function from byte offsets to bytes;
  a \<^verbatim>\<open>NULL\<close> pointer is \<open>None\<close>. The lengths \<^verbatim>\<open>slen\<close> and
  \<^verbatim>\<open>dlen\<close> are separate arguments, as in the source. The destination carries,
  next to its memory, the list of the offsets the call has stored to, in order: a store
  is then visible also where it writes the value that was there before. The
  \<^verbatim>\<open>int\<close> result is the natural number \<^verbatim>\<open>j\<close> (lengths are below
  \<open>2 ^ 31\<close>).
\<close>

type_synonym buffer = "nat \<Rightarrow> byte"

record outbuf =
  mem :: buffer
  written :: "nat list"

definition fresh :: "buffer \<Rightarrow> outbuf" where
  "fresh d = \<lparr>mem = d, written = []\<rparr>"

text \<open>\<^verbatim>\<open>dest[j] = v\<close>\<close>

definition store :: "nat \<Rightarrow> byte \<Rightarrow> outbuf \<Rightarrow> outbuf" where
  "store j v b = b\<lparr>mem := (mem b)(j := v), written := written b @ [j]\<rparr>"

text \<open>
  The loop of \<^verbatim>\<open>mdb_unicode2ascii\<close>:
  \<^verbatim>\<open>for (i = 0; i < slen && j < dlen - 1; i += 2)\<close>, with its three branches in the
  order of the source; \<open>0x3F\<close> is \<^verbatim>\<open>'?'\<close>. The loop is entered with
  \<^verbatim>\<open>dlen > 0\<close> only, so \<^verbatim>\<open>dlen - 1\<close> does not wrap.
\<close>

function u2a_loop :: "buffer \<Rightarrow> nat \<Rightarrow> nat \<Rightarrow> outbuf \<Rightarrow> nat \<Rightarrow> nat \<Rightarrow> outbuf \<times> nat" where
  "u2a_loop src slen dlen dest i j =
     (if i < slen \<and> j < dlen - 1 then
        (let low = src i;
             high = (if i + 1 < slen then src (i + 1) else 0)
         in if high = 0 \<and> low < 128 then
              u2a_loop src slen dlen (store j low dest) (i + 2) (j + 1)
            else if high = 0 \<and> low \<noteq> 0 then
              u2a_loop src slen dlen (store j low dest) (i + 2) (j + 1)
            else
              u2a_loop src slen dlen (store j 0x3F dest) (i + 2) (j + 1))
      else (dest, j))"
  by pat_completeness auto
termination
  by (relation "measure (\<lambda>(src, slen, dlen, dest, i, j). slen - i)") auto

declare u2a_loop.simps [simp del]

text \<open>
  The whole call returns the destination after the call and the \<^verbatim>\<open>int\<close>
  result. The guard \<^verbatim>\<open>if (!src || !dest || dlen == 0)\<close> stores a terminator when
  there is a destination of capacity at least 1, and returns 0.
\<close>

definition mdb_unicode2ascii ::
    "buffer option \<Rightarrow> nat \<Rightarrow> buffer option \<Rightarrow> nat \<Rightarrow> outbuf option \<times> nat" where
  "mdb_unicode2ascii src slen dest dlen =
     (case (src, dest) of
        (Some s, Some d) \<Rightarrow>
          if dlen = 0 then (Some (fresh d), 0)
          else (let (b, j) = u2a_loop s slen dlen (fresh d) 0 0 in (Some (store j 0 b), j))
      | (None, Some d) \<Rightarrow>
          if 0 < dlen then (Some (store 0 0 (fresh d)), 0) else (Some (fresh d), 0)
      | (_, None) \<Rightarrow> (None, 0))"

text \<open>
  The loop of \<^verbatim>\<open>mdb_ascii2unicode\<close>:
  \<^verbatim>\<open>for (i = 0; i < slen && j < dlen - 1; i++) if (j + 1 < dlen) { dest[j++] = src[i]; dest[j++] = 0; }\<close>
\<close>

function a2u_loop :: "buffer \<Rightarrow> nat \<Rightarrow> nat \<Rightarrow> outbuf \<Rightarrow> nat \<Rightarrow> nat \<Rightarrow> outbuf \<times> nat" where
  "a2u_loop src slen dlen dest i j =
     (if i < slen \<and> j < dlen - 1 then
        (if j + 1 < dlen then
           a2u_loop src slen dlen (store (j + 1) 0 (store j (src i) dest)) (i + 1) (j + 2)
         else a2u_loop src slen dlen dest (i + 1) j)
      else (dest, j))"
  by pat_completeness auto
termination
  by (relation "measure (\<lambda>(src, slen, dlen, dest, i, j). slen - i)") auto

declare a2u_loop.simps [simp del]

text \<open>The guard \<^verbatim>\<open>if (!src || !dest || dlen == 0) return 0;\<close> stores nothing.\<close>

definition mdb_ascii2unicode ::
    "buffer option \<Rightarrow> nat \<Rightarrow> buffer option \<Rightarrow> nat \<Rightarrow> outbuf option \<times> nat" where
  "mdb_ascii2unicode src slen dest dlen =
     (case (src, dest) of
        (Some s, Some d) \<Rightarrow>
          if dlen = 0 then (Some (fresh d), 0)
          else (let (b, j) = a2u_loop s slen dlen (fresh d) 0 0 in (Some b, j))
      | (None, Some d) \<Rightarrow> (Some (fresh d), 0)
      | (_, None) \<Rightarrow> (None, 0))"

text \<open>
  What one 2-byte unit becomes, in the words of the specification: the low byte when the
  high byte is zero, \<^verbatim>\<open>'?'\<close> otherwise. A trailing odd byte has high byte zero.
\<close>

definition narrow_unit :: "buffer \<Rightarrow> nat \<Rightarrow> nat \<Rightarrow> byte" where
  "narrow_unit src slen k =
     (let low = src (2 * k);
          high = (if 2 * k + 1 < slen then src (2 * k + 1) else 0)
      in if high = 0 then low else 0x3F)"

text \<open>
  The byte at offset \<open>k\<close> of the wide form of a narrow text: the source byte in the
  even positions, zero in the odd ones.
\<close>

definition wide_byte :: "buffer \<Rightarrow> nat \<Rightarrow> byte" where
  "wide_byte src k = (if even k then src (k div 2) else 0)"

text \<open>
  Concrete buffers for the examples: the memory that holds the given bytes, followed by
  zeros; and the first \<open>n\<close> bytes of a destination after a call.
\<close>

definition buf_of :: "byte list \<Rightarrow> buffer" where
  "buf_of xs = (\<lambda>i. if i < length xs then xs ! i else 0)"

definition dest_bytes :: "outbuf option \<Rightarrow> nat \<Rightarrow> byte list" where
  "dest_bytes r n = (case r of None \<Rightarrow> [] | Some b \<Rightarrow> map (mem b) [0..<n])"

section \<open>String utilities: \<^verbatim>\<open>g_strdup\<close>, \<^verbatim>\<open>g_strndup\<close>, \<^verbatim>\<open>g_strsplit\<close>\<close>

text \<open>
  Source: \<^verbatim>\<open>mdbfakeglib.c\<close>, lines 32-50 and 105-136.

  A C string is the list of its characters before the terminator (a \<open>string\<close>); a
  \<^verbatim>\<open>NULL\<close> pointer is \<open>None\<close>. A pointer into the haystack is the text from
  that position on. Whether an allocation succeeds is an argument of the model:
  \<^verbatim>\<open>malloc\<close> and \<^verbatim>\<open>calloc\<close> return \<^verbatim>\<open>NULL\<close> when it is
  \<open>False\<close>. The counters are natural numbers (strings are shorter than \<open>2 ^ 31\<close>
  bytes, so \<^verbatim>\<open>int\<close> does not overflow); \<^verbatim>\<open>max_tokens\<close> is an integer
  and may be zero or negative.
\<close>

definition g_strdup :: "bool \<Rightarrow> string option \<Rightarrow> string option" where
  "g_strdup malloc_ok src =
     (case src of None \<Rightarrow> None | Some s \<Rightarrow> if malloc_ok then Some s else None)"

text \<open>
  \<^verbatim>\<open>memcpy(dest, src, len); dest[len] = '\0';\<close> the callers pass
  \<^verbatim>\<open>len\<close> no longer than the string.
\<close>

definition g_strndup :: "bool \<Rightarrow> string option \<Rightarrow> nat \<Rightarrow> string option" where
  "g_strndup malloc_ok src n =
     (case src of None \<Rightarrow> None | Some s \<Rightarrow> if malloc_ok then Some (take n s) else None)"

text \<open>
  The C library's \<^verbatim>\<open>strstr\<close>: the offset of the first occurrence of the needle,
  \<open>None\<close> for \<^verbatim>\<open>NULL\<close>.
\<close>

fun strstr :: "string \<Rightarrow> string \<Rightarrow> nat option" where
  "strstr [] needle = (if needle = [] then Some 0 else None)"
| "strstr (c # cs) needle =
     (if take (length needle) (c # cs) = needle then Some 0
      else map_option Suc (strstr cs needle))"

lemma strstr_bound: "strstr p needle = Some off \<Longrightarrow> off + length needle \<le> length p"
proof (induction p arbitrary: off)
  case Nil
  then show ?case by (simp split: if_splits)
next
  case (Cons c cs)
  show ?case
  proof (cases "take (length needle) (c # cs) = needle")
    case True
    then have "length (take (length needle) (c # cs)) = length needle"
      by (rule arg_cong)
    then have "min (length (c # cs)) (length needle) = length needle"
      by (simp only: length_take)
    then have "length needle \<le> length (c # cs)"
      by arith
    then show ?thesis using Cons.prems True by simp
  next
    case False
    then show ?thesis using Cons by auto
  qed
qed

text \<open>
  The counting loop of \<^verbatim>\<open>g_strsplit\<close>:
  \<^verbatim>\<open>while ((p = strstr(p, needle)) != NULL && (max_tokens <= 0 || count < max_tokens)) { count++; p += needle_len; }\<close>
  The function has returned before the loop when the needle is empty; the test
  \<open>needle \<noteq> []\<close> repeats that check, so that the recursion is total.
\<close>

function count_tokens :: "string \<Rightarrow> string \<Rightarrow> int \<Rightarrow> nat \<Rightarrow> nat" where
  "count_tokens p needle max_tokens count =
     (case strstr p needle of
        None \<Rightarrow> count
      | Some off \<Rightarrow>
          if (max_tokens \<le> 0 \<or> int count < max_tokens) \<and> needle \<noteq> [] then
            count_tokens (drop (off + length needle) p) needle max_tokens (count + 1)
          else count)"
  by pat_completeness auto
termination
proof (relation "measure (\<lambda>(p, needle, max_tokens, count). length p)")
  show "wf (measure (\<lambda>(p, needle, max_tokens, count). length p))" by simp
next
  fix p needle :: string and max_tokens :: int and count off :: nat
  assume "strstr p needle = Some off"
    and "(max_tokens \<le> 0 \<or> int count < max_tokens) \<and> needle \<noteq> []"
  then have "off + length needle \<le> length p" "length needle = Suc (length needle - 1)"
    by (simp_all add: strstr_bound)
  then show "((drop (off + length needle) p, needle, max_tokens, count + 1),
              (p, needle, max_tokens, count)) \<in> measure (\<lambda>(p, needle, max_tokens, count). length p)"
    by simp
qed

declare count_tokens.simps [simp del]

text \<open>
  The splitting loop, on the array \<^verbatim>\<open>result\<close> of \<^verbatim>\<open>count + 1\<close> slots that
  \<^verbatim>\<open>calloc\<close> has zeroed:
  \<^verbatim>\<open>for (i = 0; i < count; i++) { next = strstr(p, needle); if (!next || (max_tokens > 0 && i == max_tokens - 1)) { result[i] = g_strdup(p); break; } result[i] = g_strndup(p, next - p); p = next + needle_len; }\<close>
  The allocation for slot \<open>i\<close> succeeds when \<open>dup_ok i\<close>.
\<close>

function split_loop ::
    "(nat \<Rightarrow> bool) \<Rightarrow> string \<Rightarrow> int \<Rightarrow> nat \<Rightarrow> string option list \<Rightarrow> string \<Rightarrow> nat \<Rightarrow> string option list" where
  "split_loop dup_ok needle max_tokens count result p i =
     (if i < count then
        (case strstr p needle of
           None \<Rightarrow> result[i := g_strdup (dup_ok i) (Some p)]
         | Some off \<Rightarrow>
             if 0 < max_tokens \<and> int i = max_tokens - 1 then
               result[i := g_strdup (dup_ok i) (Some p)]
             else
               split_loop dup_ok needle max_tokens count
                 (result[i := g_strndup (dup_ok i) (Some p) off])
                 (drop (off + length needle) p) (i + 1))
      else result)"
  by pat_completeness auto
termination
  by (relation "measure (\<lambda>(dup_ok, needle, max_tokens, count, result, p, i). count - i)") auto

declare split_loop.simps [simp del]

text \<open>
  The whole call: \<open>None\<close> is the \<^verbatim>\<open>NULL\<close> result, otherwise the array with its
  \<open>count + 1\<close> slots, \<^verbatim>\<open>NULL\<close> slots being \<open>None\<close>.
\<close>

definition g_strsplit ::
    "bool \<Rightarrow> (nat \<Rightarrow> bool) \<Rightarrow> string option \<Rightarrow> string option \<Rightarrow> int \<Rightarrow> string option list option" where
  "g_strsplit calloc_ok dup_ok haystack needle max_tokens =
     (case (haystack, needle) of
        (Some h, Some n) \<Rightarrow>
          if length n = 0 then None
          else (let count = count_tokens h n max_tokens 1
                in if \<not> calloc_ok then None
                   else Some (split_loop dup_ok n max_tokens count
                                (replicate (count + 1) None) h 0))
      | _ \<Rightarrow> None)"

text \<open>
  The words of the specification. The delimiter-separated fields of a text: cut at the
  first occurrence of the delimiter, and go on after it. The occurrences of the delimiter
  are the cuts: they are counted from the left and do not overlap. The text that remains
  after the first \<open>n\<close> delimiters.
\<close>

function split_fields :: "string \<Rightarrow> string \<Rightarrow> string list" where
  "split_fields s d =
     (case strstr s d of
        None \<Rightarrow> [s]
      | Some off \<Rightarrow> if d = [] then [s] else take off s # split_fields (drop (off + length d) s) d)"
  by pat_completeness auto
termination
proof (relation "measure (\<lambda>(s, d). length s)")
  show "wf (measure (\<lambda>(s, d). length s))" by simp
next
  fix s d :: string and off :: nat
  assume "strstr s d = Some off" and "d \<noteq> []"
  then have "off + length d \<le> length s" "length d = Suc (length d - 1)"
    by (simp_all add: strstr_bound)
  then show "((drop (off + length d) s, d), (s, d)) \<in> measure (\<lambda>(s, d). length s)"
    by simp
qed

declare split_fields.simps [simp del]

definition occurrences :: "string \<Rightarrow> string \<Rightarrow> nat" where
  "occurrences s d = length (split_fields s d) - 1"


section \<open>Growable string buffer: \<^verbatim>\<open>GString\<close>\<close>

text \<open>
  Source: \<^verbatim>\<open>mdbfakeglib.c\<close>, lines 210-276.

  The storage of a buffer is the list of its allocated bytes; a byte that has been
  allocated and never written is \<open>None\<close>. A text argument is a C string or
  \<^verbatim>\<open>NULL\<close>, as for the string utilities. The buffer argument itself is a valid
  buffer (for a \<^verbatim>\<open>NULL\<close> buffer \<^verbatim>\<open>g_string_assign\<close> returns
  \<^verbatim>\<open>NULL\<close> and \<^verbatim>\<open>g_string_append\<close> returns its argument). Sizes are
  natural numbers: \<^verbatim>\<open>size_t\<close> does not wrap on the sizes considered. Whether
  an allocation succeeds is an argument, and the \<^verbatim>\<open>NULL\<close> result of a failed call
  is \<open>None\<close>; the buffer is then as it was.
\<close>

definition NUL :: char where
  "NUL = CHR 0x00"

text \<open>
  \<^verbatim>\<open>malloc\<close> gives unwritten bytes; \<^verbatim>\<open>realloc\<close> keeps the bytes that fit
  and adds unwritten ones; \<^verbatim>\<open>memcpy(buf + off, bytes, n)\<close> replaces \<open>n\<close> bytes from
  offset \<open>off\<close> on. A copy that does not fit would make the list longer than the
  allocation: the properties below show that the list keeps the allocated length.
\<close>

definition malloc_bytes :: "nat \<Rightarrow> char option list" where
  "malloc_bytes n = replicate n None"

definition realloc_bytes :: "char option list \<Rightarrow> nat \<Rightarrow> char option list" where
  "realloc_bytes old n = take n old @ replicate (n - length old) None"

definition memcpy_to :: "char option list \<Rightarrow> nat \<Rightarrow> string \<Rightarrow> char option list" where
  "memcpy_to buf off bytes = take off buf @ map Some bytes @ drop (off + length bytes) buf"

record GString =
  str :: "char option list"
  len :: nat
  allocated_len :: nat

text \<open>
  \<^verbatim>\<open>g_string_new\<close>: with an initialiser the capacity is the length plus one and
  \<^verbatim>\<open>memcpy\<close> copies the text with its terminator; without one the capacity is 16
  and \<^verbatim>\<open>str[0] = '\0'\<close>.
\<close>

definition g_string_new :: "bool \<Rightarrow> bool \<Rightarrow> string option \<Rightarrow> GString option" where
  "g_string_new malloc_ok str_ok init =
     (if \<not> malloc_ok then None
      else case init of
        Some s \<Rightarrow>
          (let l = length s; a = l + 1
           in if \<not> str_ok then None
              else Some \<lparr>str = memcpy_to (malloc_bytes a) 0 (s @ [NUL]), len = l, allocated_len = a\<rparr>)
      | None \<Rightarrow>
          (if \<not> str_ok then None
           else Some \<lparr>str = (malloc_bytes 16)[0 := Some NUL], len = 0, allocated_len = 16\<rparr>))"

text \<open>
  \<^verbatim>\<open>g_string_assign\<close>: \<^verbatim>\<open>realloc\<close> to \<^verbatim>\<open>len + 1\<close> only when the new
  text with its terminator does not fit; then \<^verbatim>\<open>memcpy(str, rval, len + 1)\<close>, or
  \<^verbatim>\<open>str[0] = '\0'\<close> for a \<^verbatim>\<open>NULL\<close> text.
\<close>

definition g_string_assign :: "bool \<Rightarrow> GString \<Rightarrow> string option \<Rightarrow> GString option" where
  "g_string_assign realloc_ok string rval =
     (let l = (case rval of Some s \<Rightarrow> length s | None \<Rightarrow> 0)
      in if l + 1 > allocated_len string \<and> \<not> realloc_ok then None
         else
           (let g = (if l + 1 > allocated_len string
                     then string\<lparr>str := realloc_bytes (str string) (l + 1), allocated_len := l + 1\<rparr>
                     else string);
                s = (case rval of
                       Some r \<Rightarrow> memcpy_to (str g) 0 (r @ [NUL])
                     | None \<Rightarrow> (str g)[0 := Some NUL])
            in Some (g\<lparr>str := s, len := l\<rparr>)))"

text \<open>
  \<^verbatim>\<open>g_string_append\<close>: a \<^verbatim>\<open>NULL\<close> text changes nothing; otherwise
  \<^verbatim>\<open>realloc\<close> to \<^verbatim>\<open>(new_len + 1) * 2\<close> when the result does not fit, and
  \<^verbatim>\<open>memcpy(str + len, val, val_len + 1)\<close>.
\<close>

definition g_string_append :: "bool \<Rightarrow> GString \<Rightarrow> string option \<Rightarrow> GString option" where
  "g_string_append realloc_ok string val =
     (case val of
        None \<Rightarrow> Some string
      | Some v \<Rightarrow>
          (let val_len = length v;
               new_len = len string + val_len
           in if new_len + 1 > allocated_len string \<and> \<not> realloc_ok then None
              else
                (let new_allocated = (new_len + 1) * 2;
                     g = (if new_len + 1 > allocated_len string
                          then string\<lparr>str := realloc_bytes (str string) new_allocated,
                                       allocated_len := new_allocated\<rparr>
                          else string)
                 in Some (g\<lparr>str := memcpy_to (str g) (len string) (v @ [NUL]), len := new_len\<rparr>))))"

text \<open>
  Sequences of operations, each with the outcome of its reallocation; a run stops at the
  first call that fails.
\<close>

datatype gstring_op = Assign bool "string option" | Append bool "string option"

fun gstring_step :: "GString \<Rightarrow> gstring_op \<Rightarrow> GString option" where
  "gstring_step g (Assign ok rval) = g_string_assign ok g rval"
| "gstring_step g (Append ok val) = g_string_append ok g val"

fun gstring_run :: "GString \<Rightarrow> gstring_op list \<Rightarrow> GString option" where
  "gstring_run g [] = Some g"
| "gstring_run g (x # xs) =
     (case gstring_step g x of None \<Rightarrow> None | Some g' \<Rightarrow> gstring_run g' xs)"

text \<open>
  The reference model of the specification, on plain strings: assign replaces the content
  (a \<^verbatim>\<open>NULL\<close> text empties it), append concatenates (a \<^verbatim>\<open>NULL\<close> text adds
  nothing).
\<close>

fun reference_step :: "string \<Rightarrow> gstring_op \<Rightarrow> string" where
  "reference_step s (Assign ok rval) = (case rval of None \<Rightarrow> [] | Some r \<Rightarrow> r)"
| "reference_step s (Append ok val) = (case val of None \<Rightarrow> s | Some v \<Rightarrow> s @ v)"

definition reference_run :: "string \<Rightarrow> gstring_op list \<Rightarrow> string" where
  "reference_run s ops = foldl reference_step s ops"

text \<open>
  A well-formed buffer: the storage has the allocated size, the capacity is at least the
  length plus one, and the byte at position \<^verbatim>\<open>len\<close> is the terminator. A buffer
  holds a text when it is well formed and its first \<^verbatim>\<open>len\<close> bytes are the text.
\<close>

definition gstring_ok :: "GString \<Rightarrow> bool" where
  "gstring_ok g \<longleftrightarrow>
     length (str g) = allocated_len g \<and> len g + 1 \<le> allocated_len g \<and> str g ! len g = Some NUL"

definition gstring_holds :: "GString \<Rightarrow> string \<Rightarrow> bool" where
  "gstring_holds g s \<longleftrightarrow> gstring_ok g \<and> take (len g) (str g) = map Some s"

section \<open>Dynamic pointer array: \<^verbatim>\<open>GPtrArray\<close>\<close>

text \<open>
  Source: \<^verbatim>\<open>mdbfakeglib.c\<close>, lines 293-329.

  A handle (\<^verbatim>\<open>void *\<close>) is an address, a natural number, and \<^verbatim>\<open>NULL\<close> is
  0. The array is the struct of the source: the count \<^verbatim>\<open>len\<close> and the block
  \<^verbatim>\<open>pdata\<close>, which is the list of all the slots that are allocated, so that the
  length of the list is the size of the backing storage. The type of the slots is a
  parameter: handles for the array itself, entry records for the associative container.
  The array argument is a valid array (for a \<^verbatim>\<open>NULL\<close> array every function returns
  at once); counts are natural numbers (below \<open>2 ^ 32\<close>, so \<^verbatim>\<open>guint\<close> does not
  wrap). Whether an allocation succeeds is an argument.
\<close>

type_synonym gpointer = nat

definition NULL :: gpointer where
  "NULL = 0"

record 'a GPtrArray =
  len :: nat
  pdata :: "'a list"

text \<open>\<^verbatim>\<open>g_ptr_array_new\<close>: an empty array with no block, or \<^verbatim>\<open>NULL\<close>.\<close>

definition g_ptr_array_new :: "bool \<Rightarrow> 'a GPtrArray option" where
  "g_ptr_array_new malloc_ok = (if malloc_ok then Some \<lparr>len = 0, pdata = []\<rparr> else None)"

text \<open>
  \<^verbatim>\<open>g_ptr_array_add\<close>:
  \<^verbatim>\<open>new_pdata = realloc(array->pdata, (array->len + 1) * sizeof(void *)); if (!new_pdata) return;\<close>
  The new block has \<^verbatim>\<open>len + 1\<close> slots and keeps the first \<^verbatim>\<open>len\<close> slots of
  the old one (which has at least that many); the store
  \<^verbatim>\<open>array->pdata[array->len] = entry\<close> fills the last one.
\<close>

definition g_ptr_array_add :: "bool \<Rightarrow> 'a GPtrArray \<Rightarrow> 'a \<Rightarrow> 'a GPtrArray" where
  "g_ptr_array_add realloc_ok array entry =
     (if \<not> realloc_ok then array
      else array\<lparr>pdata := take (len array) (pdata array) @ [entry], len := len array + 1\<rparr>)"

text \<open>
  The inner loop of every removal:
  \<^verbatim>\<open>for (j = i; j < len - 1; j++) pdata[j] = pdata[j + 1];\<close>
  It is entered with \<^verbatim>\<open>i < len\<close>, so \<^verbatim>\<open>len - 1\<close> does not wrap. The block
  keeps its size.
\<close>

function shift_down :: "'a list \<Rightarrow> nat \<Rightarrow> nat \<Rightarrow> 'a list" where
  "shift_down slots j n =
     (if j < n - 1 then shift_down (slots[j := slots ! (j + 1)]) (j + 1) n else slots)"
  by pat_completeness auto
termination
  by (relation "measure (\<lambda>(slots, j, n). n - j)") auto

declare shift_down.simps [simp del]

text \<open>
  \<^verbatim>\<open>g_ptr_array_remove\<close>: the scan for the first slot that is identical to
  \<^verbatim>\<open>data\<close>; the result is the \<^verbatim>\<open>gboolean\<close> and the array after the call.
\<close>

function g_ptr_array_remove_loop :: "'a GPtrArray \<Rightarrow> 'a \<Rightarrow> nat \<Rightarrow> bool \<times> 'a GPtrArray" where
  "g_ptr_array_remove_loop array data i =
     (if i < len array then
        (if pdata array ! i = data then
           (True, array\<lparr>pdata := shift_down (pdata array) i (len array), len := len array - 1\<rparr>)
         else g_ptr_array_remove_loop array data (i + 1))
      else (False, array))"
  by pat_completeness auto
termination
  by (relation "measure (\<lambda>(array, data, i). len array - i)") auto

declare g_ptr_array_remove_loop.simps [simp del]

definition g_ptr_array_remove :: "'a GPtrArray \<Rightarrow> 'a \<Rightarrow> bool \<times> 'a GPtrArray" where
  "g_ptr_array_remove array data = g_ptr_array_remove_loop array data 0"

text \<open>
  The elements of an array are its first \<^verbatim>\<open>len\<close> slots; its capacity is the size
  of the block.
\<close>

definition elements :: "'a GPtrArray \<Rightarrow> 'a list" where
  "elements array = take (len array) (pdata array)"

definition capacity :: "'a GPtrArray \<Rightarrow> nat" where
  "capacity array = length (pdata array)"

text \<open>
  Sequences of append and remove operations, an append with the outcome of its
  reallocation; and what the operations are on plain lists, in the words of the
  specification: append puts the handle last, remove deletes the first occurrence.
\<close>

datatype 'a array_op = Add bool 'a | Remove 'a

fun array_step :: "'a GPtrArray \<Rightarrow> 'a array_op \<Rightarrow> 'a GPtrArray" where
  "array_step a (Add ok h) = g_ptr_array_add ok a h"
| "array_step a (Remove h) = snd (g_ptr_array_remove a h)"

definition array_run :: "'a GPtrArray \<Rightarrow> 'a array_op list \<Rightarrow> 'a GPtrArray" where
  "array_run a ops = foldl array_step a ops"

fun list_step :: "'a list \<Rightarrow> 'a array_op \<Rightarrow> 'a list" where
  "list_step xs (Add ok h) = (if ok then xs @ [h] else xs)"
| "list_step xs (Remove h) = remove1 h xs"

section \<open>Associative container: \<^verbatim>\<open>GHashTable\<close>\<close>

text \<open>
  Source: \<^verbatim>\<open>mdbfakeglib.c\<close>, lines 430-542.

  The table holds the equality predicate \<^verbatim>\<open>compare\<close> and a pointer array of
  entry records; \<^verbatim>\<open>g_hash_table_new\<close> ignores its hash function, which the model
  leaves out, and does not check the array it gets from \<^verbatim>\<open>g_ptr_array_new\<close>, so
  the field \<^verbatim>\<open>array\<close> may be \<^verbatim>\<open>NULL\<close> (\<open>None\<close>). Every entry record is
  allocated by one insert and referred to by one slot only, so a slot holds the record
  itself; a slot that holds \<^verbatim>\<open>NULL\<close> is \<open>None\<close>. The predicate and the callback
  of \<^verbatim>\<open>g_hash_table_foreach_remove\<close> are functions of the handles they receive. The
  table argument is a valid table.
\<close>

record HashEntry =
  key :: gpointer
  val :: gpointer

record GHashTable =
  compare :: "gpointer \<Rightarrow> gpointer \<Rightarrow> bool"
  array :: "HashEntry option GPtrArray option"

definition g_hash_table_new :: "bool \<Rightarrow> bool \<Rightarrow> (gpointer \<Rightarrow> gpointer \<Rightarrow> bool) \<Rightarrow> GHashTable option" where
  "g_hash_table_new malloc_ok array_ok equal_func =
     (if \<not> malloc_ok then None
      else Some \<lparr>compare = equal_func, array = g_ptr_array_new array_ok\<rparr>)"

text \<open>The test of every scan: \<^verbatim>\<open>entry && table->compare(entry->key, key)\<close>.\<close>

definition entry_matches :: "(gpointer \<Rightarrow> gpointer \<Rightarrow> bool) \<Rightarrow> gpointer \<Rightarrow> HashEntry option \<Rightarrow> bool" where
  "entry_matches cmp k entry = (case entry of None \<Rightarrow> False | Some e \<Rightarrow> cmp (key e) k)"

text \<open>
  The scan of \<^verbatim>\<open>g_hash_table_lookup\<close> and \<^verbatim>\<open>g_hash_table_lookup_extended\<close>
  returns the first slot that matches. The first returns the value of the entry, or
  \<^verbatim>\<open>NULL\<close>; the second returns \<^verbatim>\<open>TRUE\<close> with the stored key and the value
  (\<open>Some\<close>), or \<^verbatim>\<open>FALSE\<close> (\<open>None\<close>).
\<close>

function lookup_loop ::
    "(gpointer \<Rightarrow> gpointer \<Rightarrow> bool) \<Rightarrow> HashEntry option GPtrArray \<Rightarrow> gpointer \<Rightarrow> nat \<Rightarrow> HashEntry option" where
  "lookup_loop cmp a k i =
     (if i < len a then
        (if entry_matches cmp k (pdata a ! i) then pdata a ! i
         else lookup_loop cmp a k (i + 1))
      else None)"
  by pat_completeness auto
termination
  by (relation "measure (\<lambda>(cmp, a, k, i). len a - i)") auto

declare lookup_loop.simps [simp del]

definition g_hash_table_lookup :: "GHashTable \<Rightarrow> gpointer \<Rightarrow> gpointer" where
  "g_hash_table_lookup table k =
     (case array table of
        None \<Rightarrow> NULL
      | Some a \<Rightarrow> (case lookup_loop (compare table) a k 0 of None \<Rightarrow> NULL | Some e \<Rightarrow> val e))"

definition g_hash_table_lookup_extended :: "GHashTable \<Rightarrow> gpointer \<Rightarrow> (gpointer \<times> gpointer) option" where
  "g_hash_table_lookup_extended table k =
     (case array table of
        None \<Rightarrow> None
      | Some a \<Rightarrow> (case lookup_loop (compare table) a k 0 of
                     None \<Rightarrow> None | Some e \<Rightarrow> Some (key e, val e)))"

text \<open>
  \<^verbatim>\<open>g_hash_table_insert\<close>: the scan overwrites the value of the first entry that
  matches (\<^verbatim>\<open>entry->value = value; return;\<close>) and otherwise finds nothing
  (\<open>None\<close>); then a new entry is allocated and, \<^verbatim>\<open>if (entry)\<close>, appended with
  \<^verbatim>\<open>g_ptr_array_add\<close>.
\<close>

function insert_loop ::
    "(gpointer \<Rightarrow> gpointer \<Rightarrow> bool) \<Rightarrow> HashEntry option GPtrArray \<Rightarrow> gpointer \<Rightarrow> gpointer \<Rightarrow> nat
       \<Rightarrow> HashEntry option GPtrArray option" where
  "insert_loop cmp a k v i =
     (if i < len a then
        (if entry_matches cmp k (pdata a ! i) then
           Some (a\<lparr>pdata := (pdata a)[i := map_option (\<lambda>e. e\<lparr>val := v\<rparr>) (pdata a ! i)]\<rparr>)
         else insert_loop cmp a k v (i + 1))
      else None)"
  by pat_completeness auto
termination
  by (relation "measure (\<lambda>(cmp, a, k, v, i). len a - i)") auto

declare insert_loop.simps [simp del]

definition g_hash_table_insert :: "bool \<Rightarrow> bool \<Rightarrow> GHashTable \<Rightarrow> gpointer \<Rightarrow> gpointer \<Rightarrow> GHashTable" where
  "g_hash_table_insert malloc_ok realloc_ok table k v =
     (case array table of
        None \<Rightarrow> table
      | Some a \<Rightarrow>
          (case insert_loop (compare table) a k v 0 of
             Some a' \<Rightarrow> table\<lparr>array := Some a'\<rparr>
           | None \<Rightarrow>
               if malloc_ok then
                 table\<lparr>array := Some (g_ptr_array_add realloc_ok a (Some \<lparr>key = k, val = v\<rparr>))\<rparr>
               else table))"

text \<open>\<^verbatim>\<open>g_hash_table_remove\<close>: the first entry that matches is freed and its slot closed.\<close>

function remove_loop ::
    "(gpointer \<Rightarrow> gpointer \<Rightarrow> bool) \<Rightarrow> HashEntry option GPtrArray \<Rightarrow> gpointer \<Rightarrow> nat
       \<Rightarrow> bool \<times> HashEntry option GPtrArray" where
  "remove_loop cmp a k i =
     (if i < len a then
        (if entry_matches cmp k (pdata a ! i) then
           (True, a\<lparr>pdata := shift_down (pdata a) i (len a), len := len a - 1\<rparr>)
         else remove_loop cmp a k (i + 1))
      else (False, a))"
  by pat_completeness auto
termination
  by (relation "measure (\<lambda>(cmp, a, k, i). len a - i)") auto

declare remove_loop.simps [simp del]

definition g_hash_table_remove :: "GHashTable \<Rightarrow> gpointer \<Rightarrow> bool \<times> GHashTable" where
  "g_hash_table_remove table k =
     (case array table of
        None \<Rightarrow> (False, table)
      | Some a \<Rightarrow> (let (found, a') = remove_loop (compare table) a k 0
                   in (found, table\<lparr>array := Some a'\<rparr>)))"

text \<open>
  \<^verbatim>\<open>g_hash_table_foreach_remove\<close>: the test is
  \<^verbatim>\<open>entry && function(entry->key, entry->value, user_data)\<close>; the index stays where it
  is after a removal and advances otherwise. A \<^verbatim>\<open>NULL\<close> callback is \<open>None\<close>.
\<close>

definition entry_selected :: "(gpointer \<Rightarrow> gpointer \<Rightarrow> bool) \<Rightarrow> HashEntry option \<Rightarrow> bool" where
  "entry_selected f entry = (case entry of None \<Rightarrow> False | Some e \<Rightarrow> f (key e) (val e))"

function foreach_remove_loop ::
    "(gpointer \<Rightarrow> gpointer \<Rightarrow> bool) \<Rightarrow> HashEntry option GPtrArray \<Rightarrow> nat \<Rightarrow> HashEntry option GPtrArray" where
  "foreach_remove_loop f a i =
     (if i < len a then
        (if entry_selected f (pdata a ! i) then
           foreach_remove_loop f (a\<lparr>pdata := shift_down (pdata a) i (len a), len := len a - 1\<rparr>) i
         else foreach_remove_loop f a (i + 1))
      else a)"
  by pat_completeness auto
termination
  by (relation "measure (\<lambda>(f, a, i). len a - i)") auto

declare foreach_remove_loop.simps [simp del]

definition g_hash_table_foreach_remove ::
    "GHashTable \<Rightarrow> (gpointer \<Rightarrow> gpointer \<Rightarrow> bool) option \<Rightarrow> GHashTable" where
  "g_hash_table_foreach_remove table func =
     (case (array table, func) of
        (Some a, Some f) \<Rightarrow> table\<lparr>array := Some (foreach_remove_loop f a 0)\<rparr>
      | _ \<Rightarrow> table)"

text \<open>
  Sequences of insert, remove and foreach-remove operations, an insert with the outcomes
  of its two allocations (the entry record, and the slot in \<^verbatim>\<open>g_ptr_array_add\<close>).
\<close>

datatype table_op =
    Insert bool bool gpointer gpointer
  | Delete gpointer
  | ForeachRemove "(gpointer \<Rightarrow> gpointer \<Rightarrow> bool) option"

fun table_step :: "GHashTable \<Rightarrow> table_op \<Rightarrow> GHashTable" where
  "table_step t (Insert malloc_ok realloc_ok k v) = g_hash_table_insert malloc_ok realloc_ok t k v"
| "table_step t (Delete k) = snd (g_hash_table_remove t k)"
| "table_step t (ForeachRemove f) = g_hash_table_foreach_remove t f"

definition table_run :: "GHashTable \<Rightarrow> table_op list \<Rightarrow> GHashTable" where
  "table_run t ops = foldl table_step t ops"

text \<open>
  The keys of the stored entries, in the order of the slots, and the invariant of the
  specification: no two of them are equal under the predicate, in either order.
\<close>

fun slot_keys :: "HashEntry option list \<Rightarrow> gpointer list" where
  "slot_keys [] = []"
| "slot_keys (None # es) = slot_keys es"
| "slot_keys (Some e # es) = key e # slot_keys es"

definition stored_keys :: "GHashTable \<Rightarrow> gpointer list" where
  "stored_keys t = (case array t of None \<Rightarrow> [] | Some a \<Rightarrow> slot_keys (elements a))"

fun no_equal_keys :: "(gpointer \<Rightarrow> gpointer \<Rightarrow> bool) \<Rightarrow> gpointer list \<Rightarrow> bool" where
  "no_equal_keys cmp [] = True"
| "no_equal_keys cmp (k # ks) \<longleftrightarrow> (\<forall>k' \<in> set ks. \<not> cmp k k' \<and> \<not> cmp k' k) \<and> no_equal_keys cmp ks"

text \<open>
  The invariants of the scans: the count is within the block and the stored keys are
  pairwise different; the table carries its predicate.
\<close>

definition array_inv :: "(gpointer \<Rightarrow> gpointer \<Rightarrow> bool) \<Rightarrow> HashEntry option GPtrArray \<Rightarrow> bool" where
  "array_inv cmp a \<longleftrightarrow> len a \<le> capacity a \<and> no_equal_keys cmp (slot_keys (elements a))"

definition table_inv :: "(gpointer \<Rightarrow> gpointer \<Rightarrow> bool) \<Rightarrow> GHashTable \<Rightarrow> bool" where
  "table_inv cmp t \<longleftrightarrow>
     compare t = cmp \<and> (case array t of None \<Rightarrow> True | Some a \<Rightarrow> array_inv cmp a)"

section \<open>Properties of the cipher\<close>

lemma xor_twice: "(d XOR k) XOR k = (d :: byte)"
  by (simp add: xor.assoc)

lemma xor_keystream_twice: "xor_keystream s i j (xor_keystream s i j ds) = ds"
  by (induction ds arbitrary: s i j) (simp_all add: Let_def xor_twice)

lemma xor_keystream_length: "length (xor_keystream s i j ds) = length ds"
  by (induction ds arbitrary: s i j) (simp_all add: Let_def)

text \<open>
  On a buffer of fewer than \<open>2 ^ 32\<close> bytes the counter reaches \<^verbatim>\<open>data_len\<close>
  without wrapping and the loop returns: the bytes before \<^verbatim>\<open>k\<close> are left as
  they are and the others are combined with the keystream.
\<close>

lemma rc4_prga_below_wrap:
  "length data < 2 ^ 32 \<Longrightarrow> k \<le> length data \<Longrightarrow>
   rc4_prga s i j k data = Some (take k data @ xor_keystream s i j (drop k data))"
proof (induction "length data - k" arbitrary: s i j k data rule: less_induct)
  case less
  show ?case
  proof (cases "k < length data")
    case False
    then show ?thesis using less.prems by (subst rc4_prga.simps) simp
  next
    case True
    define i' where "i' = (i + 1) mod 256"
    define j' where "j' = (j + unat (s ! i')) mod 256"
    define s' where "s' = swap_s s i' j'"
    define x where "x = data ! k XOR s' ! ((unat (s' ! i') + unat (s' ! j')) mod 256)"
    have k1: "(k + 1) mod 2 ^ 32 = k + 1"
      using True less.prems(1) by simp
    have "rc4_prga s i j k data = rc4_prga s' i' j' (k + 1) (data[k := x])"
      using True k1 by (subst rc4_prga.simps) (simp add: Let_def i'_def j'_def s'_def x_def)
    also have "\<dots> = Some (take (k + 1) (data[k := x]) @
        xor_keystream s' i' j' (drop (k + 1) (data[k := x])))"
      using True less.prems by (intro less.hyps) simp_all
    also have "take (k + 1) (data[k := x]) = take k data @ [x]"
      using True by (simp add: take_Suc_conv_app_nth)
    also have "drop (k + 1) (data[k := x]) = drop (k + 1) data"
      by simp
    finally have r: "rc4_prga s i j k data
        = Some (take k data @ x # xor_keystream s' i' j' (drop (k + 1) data))"
      by simp
    have "drop k data = data ! k # drop (k + 1) data"
      using True by (simp add: Cons_nth_drop_Suc)
    then have "xor_keystream s i j (drop k data) = x # xor_keystream s' i' j' (drop (k + 1) data)"
      by (simp add: Let_def i'_def j'_def s'_def x_def)
    then show ?thesis using r by simp
  qed
qed

text \<open>
  For a key of length at least 1 and a data buffer of fewer than \<open>2 ^ 32\<close> bytes the
  cipher returns, and applying it a second time with the same key to its result gives the
  original data back.
\<close>

lemma mdbi_rc4_round_trip_below_wrap:
  assumes "1 \<le> length k" and "length data < 2 ^ 32"
  shows "\<exists>c. mdbi_rc4 k data = Some c \<and> length c = length data \<and> mdbi_rc4 k c = Some data"
proof -
  let ?s = "rc4_ksa k rc4_identity 0 0"
  let ?c = "xor_keystream ?s 0 0 data"
  have nk: "length k \<noteq> 0" using assms(1) by (cases k) simp_all
  have l: "length ?c = length data" by (rule xor_keystream_length)
  have "rc4_prga ?s 0 0 0 data = Some (take 0 data @ xor_keystream ?s 0 0 (drop 0 data))"
    by (rule rc4_prga_below_wrap) (use assms(2) in simp_all)
  then have 1: "mdbi_rc4 k data = Some ?c"
    using nk by (simp add: mdbi_rc4_def)
  have "rc4_prga ?s 0 0 0 ?c = Some (take 0 ?c @ xor_keystream ?s 0 0 (drop 0 ?c))"
    by (rule rc4_prga_below_wrap) (use assms(2) l in simp_all)
  then have 2: "mdbi_rc4 k ?c = Some data"
    using nk by (simp add: mdbi_rc4_def xor_keystream_twice)
  from 1 2 l show ?thesis by blast
qed

lemma mdbi_rc4_round_trip_example:
  "\<exists>c. mdbi_rc4 [0x4B, 0x45, 0x59] [0x50, 0x6C, 0x61, 0x69, 0x6E] = Some c \<and>
       length c = length [0x50, 0x6C, 0x61, 0x69, 0x6E :: byte] \<and>
       mdbi_rc4 [0x4B, 0x45, 0x59] c = Some [0x50, 0x6C, 0x61, 0x69, 0x6E]"
proof -
  have h1: "1 \<le> length [0x4B, 0x45, 0x59 :: byte]" by simp
  have h2: "length [0x50, 0x6C, 0x61, 0x69, 0x6E :: byte] < 2 ^ 32" by simp
  from mdbi_rc4_round_trip_below_wrap [OF h1 h2] show ?thesis .
qed

text \<open>
  On a buffer of \<open>2 ^ 32\<close> bytes or more the loop is never left: the counter stays below
  \<open>2 ^ 32\<close>, so \<^verbatim>\<open>k < data_len\<close> holds at every test, and after
  \<^verbatim>\<open>k = 2 ^ 32 - 1\<close> the increment takes it back to 0. No run of the loop from
  such a state returns a value.
\<close>

lemma rc4_prga_returns_only_below_wrap:
  assumes "rc4_prga s i j k data = Some y"
  shows "\<not> (2 ^ 32 \<le> length data \<and> k < 2 ^ 32)"
proof (rule rc4_prga.raw_induct
    [where P = "\<lambda>s i j k data y. \<not> (2 ^ 32 \<le> length data \<and> k < 2 ^ 32)", OF _ assms])
  fix f :: "byte list \<Rightarrow> nat \<Rightarrow> nat \<Rightarrow> nat \<Rightarrow> byte list \<Rightarrow> byte list option"
  fix s :: "byte list" and i j k :: nat and data y :: "byte list"
  assume IH: "\<And>s i j k data y. f s i j k data = Some y \<Longrightarrow>
    \<not> (2 ^ 32 \<le> length data \<and> k < 2 ^ 32)"
  assume body: "(if k < length data then
        (let i' = (i + 1) mod 256;
             j' = (j + unat (s ! i')) mod 256;
             s' = swap_s s i' j'
         in f s' i' j' ((k + 1) mod 2 ^ 32)
              (data[k := data ! k XOR s' ! ((unat (s' ! i') + unat (s' ! j')) mod 256)]))
      else Some data) = Some y"
  show "\<not> (2 ^ 32 \<le> length data \<and> k < 2 ^ 32)"
  proof
    assume a: "2 ^ 32 \<le> length data \<and> k < 2 ^ 32"
    then have "k < length data" by simp
    with body obtain s' i' j' d' where
      st: "f s' i' j' ((k + 1) mod 2 ^ 32) d' = Some y" and ln: "length d' = length data"
      by (auto simp: Let_def)
    have "\<not> (2 ^ 32 \<le> length d' \<and> (k + 1) mod 2 ^ 32 < 2 ^ 32)"
      by (rule IH [OF st])
    with ln a show False by simp
  qed
qed

lemma rc4_prga_never_exits:
  "2 ^ 32 \<le> length data \<Longrightarrow> k < 2 ^ 32 \<Longrightarrow> rc4_prga s i j k data = None"
  using rc4_prga_returns_only_below_wrap [of s i j k data]
  by (cases "rc4_prga s i j k data") auto

lemma mdbi_rc4_never_returns:
  "2 ^ 32 \<le> length data \<Longrightarrow> mdbi_rc4 k data = None"
  by (simp add: mdbi_rc4_def rc4_prga_never_exits)

text \<open>
  Claim C1 says that for every key of length at least 1 and every data buffer, applying
  the cipher twice with the same key gives the data back. The code does not do that on a
  data buffer of \<open>2 ^ 32\<close> bytes: with the three-byte key \<^verbatim>\<open>"KEY"\<close> the last loop
  of the first application never exits, so the call does not return and there is no
  result to apply the cipher to a second time.
\<close>

theorem mdbi_rc4_no_return_at_wrap:
  "rc4_prga (rc4_ksa [0x4B, 0x45, 0x59] rc4_identity 0 0) 0 0 0 (replicate (2 ^ 32) 0) = None \<and>
   mdbi_rc4 [0x4B, 0x45, 0x59] (replicate (2 ^ 32) 0) = None \<and>
   length (replicate (2 ^ 32) (0 :: byte)) = 2 ^ 32"
  by (simp add: mdbi_rc4_never_returns rc4_prga_never_exits)

section \<open>Properties of the transcoder\<close>

lemma store_simps [simp]:
  "mem (store j v b) = (mem b)(j := v)"
  "written (store j v b) = written b @ [j]"
  by (simp_all add: store_def)

lemma fresh_simps [simp]: "mem (fresh d) = d" "written (fresh d) = []"
  by (simp_all add: fresh_def)

lemma u2a_loop_stop:
  "\<not> (i < slen \<and> j < dlen - 1) \<Longrightarrow> u2a_loop src slen dlen dest i j = (dest, j)"
  by (subst u2a_loop.simps) auto

lemma u2a_loop_step:
  assumes "2 * j < slen" "j < dlen - 1"
  shows "u2a_loop src slen dlen dest (2 * j) j =
         u2a_loop src slen dlen (store j (narrow_unit src slen j) dest) (2 * Suc j) (Suc j)"
proof -
  have "(0 :: byte) < 128" by simp
  then show ?thesis
    using assms
    by (subst u2a_loop.simps) (auto simp: narrow_unit_def Let_def)
qed

lemma u2a_loop_spec:
  assumes "1 \<le> dlen"
  shows "\<exists>b j'. u2a_loop src slen dlen dest (2 * j) j = (b, j') \<and>
           j' = max j (min ((slen + 1) div 2) (dlen - 1)) \<and>
           written b = written dest @ [j..<j'] \<and>
           (\<forall>k. mem b k = (if j \<le> k \<and> k < j' then narrow_unit src slen k else mem dest k))"
proof (induction "slen - 2 * j" arbitrary: j dest rule: less_induct)
  case less
  show ?case
  proof (cases "2 * j < slen \<and> j < dlen - 1")
    case False
    then show ?thesis
      by (auto simp: u2a_loop_stop max_def min_def)
  next
    case True
    let ?d = "store j (narrow_unit src slen j) dest"
    have "slen - 2 * Suc j < slen - 2 * j" using True by arith
    from less [OF this, of ?d] obtain b j' where
      r: "u2a_loop src slen dlen ?d (2 * Suc j) (Suc j) = (b, j')"
      and j': "j' = max (Suc j) (min ((slen + 1) div 2) (dlen - 1))"
      and w: "written b = written ?d @ [Suc j..<j']"
      and m: "\<forall>k. mem b k = (if Suc j \<le> k \<and> k < j' then narrow_unit src slen k else mem ?d k)"
      by blast
    have lt: "Suc j \<le> j'" using j' by simp
    have "Suc j \<le> min ((slen + 1) div 2) (dlen - 1)"
      using True by (simp) arith
    then have j'2: "j' = max j (min ((slen + 1) div 2) (dlen - 1))"
      using j' by (simp add: max_def)
    have "written b = written dest @ [j..<j']"
      using w lt by (simp add: upt_conv_Cons)
    moreover have "\<forall>k. mem b k = (if j \<le> k \<and> k < j' then narrow_unit src slen k else mem dest k)"
      using m lt by auto
    ultimately show ?thesis
      using r j'2 True by (simp add: u2a_loop_step)
  qed
qed

lemma a2u_loop_stop:
  "\<not> (i < slen \<and> j < dlen - 1) \<Longrightarrow> a2u_loop src slen dlen dest i j = (dest, j)"
  by (subst a2u_loop.simps) auto

lemma a2u_loop_step:
  assumes "i < slen" "j + 1 < dlen"
  shows "a2u_loop src slen dlen dest i j =
         a2u_loop src slen dlen (store (j + 1) 0 (store j (src i) dest)) (Suc i) (j + 2)"
  using assms by (subst a2u_loop.simps) auto

lemma a2u_loop_spec:
  assumes "1 \<le> dlen"
  shows "\<exists>b. a2u_loop src slen dlen dest i (2 * i) = (b, 2 * max i (min slen (dlen div 2))) \<and>
           written b = written dest @ [2 * i..<2 * max i (min slen (dlen div 2))] \<and>
           (\<forall>k. mem b k = (if 2 * i \<le> k \<and> k < 2 * max i (min slen (dlen div 2))
                            then wide_byte src k else mem dest k))"
proof (induction "slen - i" arbitrary: i dest rule: less_induct)
  case less
  let ?n = "\<lambda>i. max i (min slen (dlen div 2))"
  show ?case
  proof (cases "i < slen \<and> 2 * i + 1 < dlen")
    case False
    then have "\<not> (i < slen \<and> 2 * i < dlen - 1)" using assms by auto
    moreover have "?n i = i" using False by (auto simp: max_def min_def)
    ultimately show ?thesis
      by (auto simp: a2u_loop_stop)
  next
    case True
    let ?d = "store (2 * i + 1) 0 (store (2 * i) (src i) dest)"
    have "slen - Suc i < slen - i" using True by arith
    from less [OF this, of ?d] obtain b where
      r: "a2u_loop src slen dlen ?d (Suc i) (2 * Suc i) = (b, 2 * ?n (Suc i))"
      and w: "written b = written ?d @ [2 * Suc i..<2 * ?n (Suc i)]"
      and m: "\<forall>k. mem b k = (if 2 * Suc i \<le> k \<and> k < 2 * ?n (Suc i)
                              then wide_byte src k else mem ?d k)"
      by blast
    have "Suc i \<le> min slen (dlen div 2)" using True by simp arith
    then have n: "?n (Suc i) = ?n i" and lt: "Suc i \<le> ?n i"
      by (simp_all add: max_def)
    have "[2 * i..<2 * ?n i] = 2 * i # Suc (2 * i) # [2 * Suc i..<2 * ?n i]"
      using lt by (simp add: upt_conv_Cons)
    then have "written b = written dest @ [2 * i..<2 * ?n i]"
      using w n by simp
    moreover have "\<forall>k. mem b k = (if 2 * i \<le> k \<and> k < 2 * ?n i
                                     then wide_byte src k else mem dest k)"
    proof
      fix k
      consider "k = 2 * i" | "k = 2 * i + 1" | "k < 2 * i" | "2 * Suc i \<le> k"
        by (cases "k < 2 * i"; cases "k = 2 * i"; cases "k = 2 * i + 1") auto
      then show "mem b k = (if 2 * i \<le> k \<and> k < 2 * ?n i then wide_byte src k else mem dest k)"
        using m n lt by cases (auto simp: wide_byte_def)
    qed
    moreover have "a2u_loop src slen dlen dest i (2 * i) = (b, 2 * ?n i)"
      using r n True by (simp add: a2u_loop_step)
    ultimately show ?thesis by blast
  qed
qed

lemma mdb_unicode2ascii_Some:
  assumes "1 \<le> dlen"
  shows "\<exists>b. mdb_unicode2ascii (Some s) slen (Some d) dlen =
               (Some b, min ((slen + 1) div 2) (dlen - 1)) \<and>
             written b = [0..<min ((slen + 1) div 2) (dlen - 1)] @ [min ((slen + 1) div 2) (dlen - 1)] \<and>
             (\<forall>k. mem b k = (if k < min ((slen + 1) div 2) (dlen - 1) then narrow_unit s slen k
                              else if k = min ((slen + 1) div 2) (dlen - 1) then 0 else d k))"
proof -
  let ?j = "min ((slen + 1) div 2) (dlen - 1)"
  from u2a_loop_spec [OF assms, of s slen "fresh d" 0] obtain b where
    r: "u2a_loop s slen dlen (fresh d) 0 0 = (b, ?j)"
    and w: "written b = [0..<?j]"
    and m: "\<forall>k. mem b k = (if k < ?j then narrow_unit s slen k else d k)"
    by auto
  show ?thesis
    using assms r w m by (auto simp: mdb_unicode2ascii_def)
qed

lemma mdb_unicode2ascii_None:
  assumes "1 \<le> dlen"
  shows "mdb_unicode2ascii None slen (Some d) dlen = (Some (store 0 0 (fresh d)), 0)"
  using assms by (simp add: mdb_unicode2ascii_def)

lemma mdb_ascii2unicode_Some:
  assumes "1 \<le> dlen"
  shows "\<exists>b. mdb_ascii2unicode (Some s) slen (Some d) dlen = (Some b, 2 * min slen (dlen div 2)) \<and>
             written b = [0..<2 * min slen (dlen div 2)] \<and>
             (\<forall>k. mem b k = (if k < 2 * min slen (dlen div 2) then wide_byte s k else d k))"
proof -
  from a2u_loop_spec [OF assms, of s slen "fresh d" 0] obtain b where
    "a2u_loop s slen dlen (fresh d) 0 0 = (b, 2 * min slen (dlen div 2))"
    "written b = [0..<2 * min slen (dlen div 2)]"
    "\<forall>k. mem b k = (if k < 2 * min slen (dlen div 2) then wide_byte s k else d k)"
    by auto
  then show ?thesis
    using assms by (auto simp: mdb_ascii2unicode_def)
qed

text \<open>
  Claim C5. For every source buffer (a \<^verbatim>\<open>NULL\<close> one included), every source
  length and every destination of capacity \<open>dlen \<ge> 1\<close>, \<^verbatim>\<open>mdb_unicode2ascii\<close>
  stores \<open>j \<le> dlen - 1\<close> content bytes at the offsets \<open>0, \<dots>, j - 1\<close> and then one
  terminator at offset \<open>j\<close>, and nothing else: every offset it stores to is below
  \<open>dlen\<close>, and the memory from \<open>dlen\<close> on is as before. The count \<open>j\<close> is the
  number of units of the source cut down to \<open>dlen - 1\<close>: a destination that is too small
  receives the first \<open>dlen - 1\<close> converted units, and the call reports nothing but the
  count. Without a destination (a \<^verbatim>\<open>NULL\<close> pointer) it stores nothing.
\<close>

theorem mdb_unicode2ascii_within_capacity:
  assumes "1 \<le> dlen"
  shows "(\<exists>b j. mdb_unicode2ascii src slen (Some d) dlen = (Some b, j) \<and>
           j = (case src of None \<Rightarrow> 0 | Some s \<Rightarrow> min ((slen + 1) div 2) (dlen - 1)) \<and>
           j \<le> dlen - 1 \<and>
           written b = [0..<j] @ [j] \<and>
           (\<forall>k \<in> set (written b). k < dlen) \<and>
           (\<forall>k. dlen \<le> k \<longrightarrow> mem b k = d k) \<and>
           (\<forall>s k. src = Some s \<longrightarrow> k < j \<longrightarrow> mem b k = narrow_unit s slen k) \<and>
           mem b j = 0) \<and>
         mdb_unicode2ascii src slen None dlen = (None, 0)"
proof
  show "\<exists>b j. mdb_unicode2ascii src slen (Some d) dlen = (Some b, j) \<and>
           j = (case src of None \<Rightarrow> 0 | Some s \<Rightarrow> min ((slen + 1) div 2) (dlen - 1)) \<and>
           j \<le> dlen - 1 \<and>
           written b = [0..<j] @ [j] \<and>
           (\<forall>k \<in> set (written b). k < dlen) \<and>
           (\<forall>k. dlen \<le> k \<longrightarrow> mem b k = d k) \<and>
           (\<forall>s k. src = Some s \<longrightarrow> k < j \<longrightarrow> mem b k = narrow_unit s slen k) \<and>
           mem b j = 0"
  proof (cases src)
    case None
    then show ?thesis
      using assms by (auto simp: mdb_unicode2ascii_None)
  next
    case (Some s)
    from mdb_unicode2ascii_Some [OF assms, of s slen d] obtain b where
      "mdb_unicode2ascii (Some s) slen (Some d) dlen = (Some b, min ((slen + 1) div 2) (dlen - 1))"
      "written b = [0..<min ((slen + 1) div 2) (dlen - 1)] @ [min ((slen + 1) div 2) (dlen - 1)]"
      "\<forall>k. mem b k = (if k < min ((slen + 1) div 2) (dlen - 1) then narrow_unit s slen k
                       else if k = min ((slen + 1) div 2) (dlen - 1) then 0 else d k)"
      by blast
    then show ?thesis
      using assms Some by auto
  qed
  show "mdb_unicode2ascii src slen None dlen = (None, 0)"
    by (simp add: mdb_unicode2ascii_def split: option.splits)
qed

text \<open>
  Three units into a destination of capacity 3: two content bytes, then the terminator;
  the byte at offset 3 is untouched.
\<close>

theorem mdb_unicode2ascii_within_capacity_witness:
  "(1 :: nat) \<le> 3 \<and>
   (\<exists>b. mdb_unicode2ascii (Some (buf_of [0x41, 0, 0x42, 0, 0x43, 1])) 6
          (Some (buf_of [0xFF, 0xFF, 0xFF, 0xFF])) 3 = (Some b, 2) \<and>
        written b = [0, 1, 2] \<and>
        mem b 0 = 0x41 \<and> mem b 1 = 0x42 \<and> mem b 2 = 0 \<and> mem b 3 = 0xFF)"
proof -
  have h: "(1 :: nat) \<le> 3" by simp
  from mdb_unicode2ascii_within_capacity [OF h, of "Some (buf_of [0x41, 0, 0x42, 0, 0x43, 1])" 6
      "buf_of [0xFF, 0xFF, 0xFF, 0xFF]"]
  obtain b j where
    r: "mdb_unicode2ascii (Some (buf_of [0x41, 0, 0x42, 0, 0x43, 1])) 6
          (Some (buf_of [0xFF, 0xFF, 0xFF, 0xFF])) 3 = (Some b, j)"
    and j: "j = (case Some (buf_of [0x41, 0, 0x42, 0, 0x43, 1 :: byte]) of None \<Rightarrow> 0
                 | Some s \<Rightarrow> min ((6 + 1) div 2) (3 - 1))"
    and w: "written b = [0..<j] @ [j]"
    and f: "\<forall>k. 3 \<le> k \<longrightarrow> mem b k = buf_of [0xFF, 0xFF, 0xFF, 0xFF] k"
    and c: "\<forall>s k. Some (buf_of [0x41, 0, 0x42, 0, 0x43, 1]) = Some s \<longrightarrow> k < j \<longrightarrow>
              mem b k = narrow_unit s 6 k"
    and z: "mem b j = 0"
    by blast
  have j2: "j = 2" using j by simp
  have "[0..<2] @ [2] = [0, 1, 2 :: nat]" by (simp add: upt_rec)
  then have "written b = [0, 1, 2]" using w j2 by simp
  moreover have "mem b 0 = 0x41" "mem b 1 = 0x42"
    using c j2 by (simp_all add: narrow_unit_def buf_of_def)
  moreover have "mem b 3 = 0xFF" using f by (simp add: buf_of_def)
  ultimately show ?thesis using r z j2 by simp
qed

text \<open>
  Claim C6. For every byte string whose bytes all lie in 1..127, \<^verbatim>\<open>mdb_ascii2unicode\<close>
  into a destination of capacity at least twice the length produces the 2-byte units with
  zero high byte, and \<^verbatim>\<open>mdb_unicode2ascii\<close> applied to that result, with a
  destination of capacity at least the length plus one, returns the length and leaves the
  original bytes (followed by the terminator) in its destination.
\<close>

theorem narrow_wide_round_trip:
  assumes "\<forall>i < slen. 1 \<le> src i \<and> src i \<le> 127"
    and "2 * slen \<le> dlen1" and "slen + 1 \<le> dlen2"
  shows "\<exists>w b. mdb_ascii2unicode (Some src) slen (Some d1) dlen1 = (Some w, 2 * slen) \<and>
           (\<forall>i < slen. mem w (2 * i) = src i \<and> mem w (2 * i + 1) = 0) \<and>
           mdb_unicode2ascii (Some (mem w)) (2 * slen) (Some d2) dlen2 = (Some b, slen) \<and>
           (\<forall>i < slen. mem b i = src i) \<and> mem b slen = 0"
proof -
  have d2: "1 \<le> dlen2" using assms(3) by simp
  have j: "min ((2 * slen + 1) div 2) (dlen2 - 1) = slen"
    using assms(3) by (simp add: min_def)
  obtain w where w: "mdb_ascii2unicode (Some src) slen (Some d1) dlen1 = (Some w, 2 * slen)"
    and mw: "\<forall>k. mem w k = (if k < 2 * slen then wide_byte src k else d1 k)"
  proof (cases "dlen1 = 0")
    case True
    then have "slen = 0" using assms(2) by simp
    then have "mdb_ascii2unicode (Some src) slen (Some d1) dlen1 = (Some (fresh d1), 2 * slen)"
      "\<forall>k. mem (fresh d1) k = (if k < 2 * slen then wide_byte src k else d1 k)"
      using True by (simp_all add: mdb_ascii2unicode_def)
    then show ?thesis using that by blast
  next
    case False
    then have "1 \<le> dlen1" by simp
    moreover have "min slen (dlen1 div 2) = slen" using assms(2) by (simp add: min_def)
    ultimately show ?thesis
      using mdb_ascii2unicode_Some [of dlen1 src slen d1] that by auto
  qed
  have units: "\<forall>i < slen. mem w (2 * i) = src i \<and> mem w (2 * i + 1) = 0"
    using mw by (auto simp: wide_byte_def)
  from mdb_unicode2ascii_Some [OF d2, of "mem w" "2 * slen" d2] j obtain b where
    b: "mdb_unicode2ascii (Some (mem w)) (2 * slen) (Some d2) dlen2 = (Some b, slen)"
    and mb: "\<forall>k. mem b k = (if k < slen then narrow_unit (mem w) (2 * slen) k
                              else if k = slen then 0 else d2 k)"
    by auto
  have "\<forall>i < slen. mem b i = src i"
    using mb units by (auto simp: narrow_unit_def Let_def)
  moreover have "mem b slen = 0" using mb by simp
  ultimately show ?thesis using w units b by blast
qed

text \<open>The text \<^verbatim>\<open>MDB\<close> there and back.\<close>

theorem narrow_wide_round_trip_witness:
  "(\<exists>w b. mdb_ascii2unicode (Some (buf_of [0x4D, 0x44, 0x42])) 3 (Some (buf_of [])) 6 = (Some w, 6) \<and>
      dest_bytes (Some w) 6 = [0x4D, 0, 0x44, 0, 0x42, 0] \<and>
      mdb_unicode2ascii (Some (mem w)) 6 (Some (buf_of [9, 9, 9, 9])) 4 = (Some b, 3) \<and>
      dest_bytes (Some b) 4 = [0x4D, 0x44, 0x42, 0])"
proof -
  have h1: "\<forall>i < 3. 1 \<le> buf_of [0x4D, 0x44, 0x42] i \<and> buf_of [0x4D, 0x44, 0x42] i \<le> 127"
  proof (intro allI impI)
    fix i :: nat
    assume "i < 3"
    then consider "i = 0" | "i = 1" | "i = 2" by arith
    then show "1 \<le> buf_of [0x4D, 0x44, 0x42] i \<and> buf_of [0x4D, 0x44, 0x42] i \<le> 127"
      by cases (simp_all add: buf_of_def)
  qed
  have h2: "2 * 3 \<le> (6 :: nat)" and h3: "3 + 1 \<le> (4 :: nat)" by simp_all
  from narrow_wide_round_trip [OF h1 h2 h3, of "buf_of []" "buf_of [9, 9, 9, 9]"]
  obtain w b where
    w: "mdb_ascii2unicode (Some (buf_of [0x4D, 0x44, 0x42])) 3 (Some (buf_of [])) 6 = (Some w, 6)"
    and mw: "\<forall>i < 3. mem w (2 * i) = buf_of [0x4D, 0x44, 0x42] i \<and> mem w (2 * i + 1) = 0"
    and b: "mdb_unicode2ascii (Some (mem w)) 6 (Some (buf_of [9, 9, 9, 9])) 4 = (Some b, 3)"
    and mb: "\<forall>i < 3. mem b i = buf_of [0x4D, 0x44, 0x42] i"
    and z: "mem b 3 = 0"
    by auto
  have u6: "[0..<6] = [0, 1, 2, 3, 4, 5 :: nat]" and u4: "[0..<4] = [0, 1, 2, 3 :: nat]"
    by (simp_all add: upt_rec)
  have "mem w 0 = 0x4D" "mem w 1 = 0" "mem w 2 = 0x44" "mem w 3 = 0" "mem w 4 = 0x42" "mem w 5 = 0"
    using mw [rule_format, of 0] mw [rule_format, of 1] mw [rule_format, of 2]
    by (simp_all add: buf_of_def)
  then have "dest_bytes (Some w) 6 = [0x4D, 0, 0x44, 0, 0x42, 0]"
    by (simp add: dest_bytes_def u6)
  moreover have "mem b 0 = 0x4D" "mem b 1 = 0x44" "mem b 2 = 0x42"
    using mb [rule_format, of 0] mb [rule_format, of 1] mb [rule_format, of 2]
    by (simp_all add: buf_of_def)
  then have "dest_bytes (Some b) 4 = [0x4D, 0x44, 0x42, 0]"
    using z by (simp add: dest_bytes_def u4)
  ultimately show ?thesis using w b by blast
qed

text \<open>
  Claim C7, as amended. For every input and every destination of capacity at least 1,
  \<^verbatim>\<open>mdb_unicode2ascii\<close> stores a NUL at offset \<open>j\<close>, immediately after the
  \<open>j\<close> bytes it produced. \<^verbatim>\<open>mdb_ascii2unicode\<close> stores the \<open>j\<close> bytes it
  produced at the offsets \<open>0, \<dots>, j - 1\<close>, each source byte followed by a zero byte, and
  nothing after them: every byte from offset \<open>j\<close> on keeps the value it had before the
  call.
\<close>

theorem transcoder_terminators:
  assumes "1 \<le> dlen"
  shows "(\<exists>b j. mdb_unicode2ascii src slen (Some d) dlen = (Some b, j) \<and>
            j < dlen \<and> written b = [0..<j] @ [j] \<and> mem b j = 0) \<and>
         (\<exists>b j. mdb_ascii2unicode src slen (Some d) dlen = (Some b, j) \<and>
            j \<le> dlen \<and> written b = [0..<j] \<and> (\<forall>k. j \<le> k \<longrightarrow> mem b k = d k) \<and>
            (\<forall>s k. src = Some s \<longrightarrow> k < j \<longrightarrow> mem b k = wide_byte s k))"
proof
  show "\<exists>b j. mdb_unicode2ascii src slen (Some d) dlen = (Some b, j) \<and>
            j < dlen \<and> written b = [0..<j] @ [j] \<and> mem b j = 0"
  proof (cases src)
    case None
    then show ?thesis using assms by (auto simp: mdb_unicode2ascii_None)
  next
    case (Some s)
    then show ?thesis
      using mdb_unicode2ascii_Some [OF assms, of s slen d] assms by auto
  qed
  show "\<exists>b j. mdb_ascii2unicode src slen (Some d) dlen = (Some b, j) \<and>
            j \<le> dlen \<and> written b = [0..<j] \<and> (\<forall>k. j \<le> k \<longrightarrow> mem b k = d k) \<and>
            (\<forall>s k. src = Some s \<longrightarrow> k < j \<longrightarrow> mem b k = wide_byte s k)"
  proof (cases src)
    case None
    then show ?thesis by (simp add: mdb_ascii2unicode_def)
  next
    case (Some s)
    have "2 * min slen (dlen div 2) \<le> dlen" by (simp add: min_def) arith
    then show ?thesis
      using mdb_ascii2unicode_Some [OF assms, of s slen d] Some by auto
  qed
qed

text \<open>One character in each direction, into a destination filled with the byte 9.\<close>

theorem transcoder_terminators_witness:
  "(1 :: nat) \<le> 4 \<and>
   (\<exists>b. mdb_unicode2ascii (Some (buf_of [0x41, 0])) 2 (Some (buf_of [9, 9, 9, 9])) 4 = (Some b, 1) \<and>
        written b = [0, 1] \<and> mem b 1 = 0) \<and>
   (\<exists>b. mdb_ascii2unicode (Some (buf_of [0x41])) 1 (Some (buf_of [9, 9, 9, 9])) 4 = (Some b, 2) \<and>
        written b = [0, 1] \<and> mem b 2 = 9 \<and> mem b 3 = 9)"
proof -
  have h: "(1 :: nat) \<le> 4" by simp
  have u: "[0..<2] = [0, 1 :: nat]" "[0..<1] = [0 :: nat]" by (simp_all add: upt_rec)
  from transcoder_terminators [OF h, of "Some (buf_of [0x41, 0])" 2 "buf_of [9, 9, 9, 9]"]
  obtain b j where
    r: "mdb_unicode2ascii (Some (buf_of [0x41, 0])) 2 (Some (buf_of [9, 9, 9, 9])) 4 = (Some b, j)"
    and p: "written b = [0..<j] @ [j]" "mem b j = 0"
    by blast
  have "mdb_unicode2ascii (Some (buf_of [0x41, 0])) 2 (Some (buf_of [9, 9, 9, 9])) 4
          = (fst (mdb_unicode2ascii (Some (buf_of [0x41, 0])) 2 (Some (buf_of [9, 9, 9, 9])) 4), 1)"
    using mdb_unicode2ascii_Some [OF h, of "buf_of [0x41, 0]" 2 "buf_of [9, 9, 9, 9]"] by auto
  then have j: "j = 1" using r by simp
  from transcoder_terminators [OF h, of "Some (buf_of [0x41])" 1 "buf_of [9, 9, 9, 9]"]
  obtain b' j' where
    r': "mdb_ascii2unicode (Some (buf_of [0x41])) 1 (Some (buf_of [9, 9, 9, 9])) 4 = (Some b', j')"
    and p': "written b' = [0..<j']" "\<forall>k. j' \<le> k \<longrightarrow> mem b' k = buf_of [9, 9, 9, 9] k"
    by blast
  have "mdb_ascii2unicode (Some (buf_of [0x41])) 1 (Some (buf_of [9, 9, 9, 9])) 4
          = (fst (mdb_ascii2unicode (Some (buf_of [0x41])) 1 (Some (buf_of [9, 9, 9, 9])) 4), 2)"
    using mdb_ascii2unicode_Some [OF h, of "buf_of [0x41]" 1 "buf_of [9, 9, 9, 9]"] by auto
  then have j': "j' = 2" using r' by simp
  have "mem b' 2 = 9" "mem b' 3 = 9" using p'(2) j' by (simp_all add: buf_of_def)
  then show ?thesis using r p j r' p' j' u by auto
qed

text \<open>
  Claim C7 as stated fails for \<^verbatim>\<open>mdb_ascii2unicode\<close>: converting the one
  character \<^verbatim>\<open>A\<close> into a four-byte destination filled with the byte 9 returns 2,
  and the byte at offset 2, immediately after the two bytes produced, is still 9.
\<close>

theorem mdb_ascii2unicode_terminator_counterexample:
  "snd (mdb_ascii2unicode (Some (buf_of [0x41])) 1 (Some (buf_of [9, 9, 9, 9])) 4) = 2 \<and>
   dest_bytes (fst (mdb_ascii2unicode (Some (buf_of [0x41])) 1 (Some (buf_of [9, 9, 9, 9])) 4)) 4
     = [0x41, 0, 9, 9]"
proof -
  have h: "(1 :: nat) \<le> 4" by simp
  have u: "[0..<4] = [0, 1, 2, 3 :: nat]" by (simp add: upt_rec)
  from mdb_ascii2unicode_Some [OF h, of "buf_of [0x41]" 1 "buf_of [9, 9, 9, 9]"]
  obtain b where
    "mdb_ascii2unicode (Some (buf_of [0x41])) 1 (Some (buf_of [9, 9, 9, 9])) 4 = (Some b, 2)"
    "\<forall>k. mem b k = (if k < 2 then wide_byte (buf_of [0x41]) k else buf_of [9, 9, 9, 9] k)"
    by auto
  then show ?thesis
    by (simp add: dest_bytes_def u wide_byte_def buf_of_def)
qed

section \<open>Properties of \<^verbatim>\<open>g_strsplit\<close>\<close>


















text \<open>
  The occurrences that count are the cuts of the scan, which goes on after each delimiter
  it finds: in \<^verbatim>\<open>"aaa"\<close> the delimiter \<^verbatim>\<open>"aa"\<close> is found once, although it
  also stands at offset 1, and a split with cap 3 gives two tokens.
\<close>

lemma g_strsplit_overlap_example:
  "occurrences ''aaa'' ''aa'' = 1 \<and>
   g_strsplit True (\<lambda>i. True) (Some ''aaa'') (Some ''aa'') 3 = Some [Some '''', Some ''a'', None]"
  by (simp add: occurrences_def split_fields.simps g_strsplit_def count_tokens.simps
      split_loop.simps g_strdup_def g_strndup_def Let_def)







section \<open>Properties of the string buffer\<close>

lemma realloc_bytes_length: "length (realloc_bytes old n) = n"
  by (simp add: realloc_bytes_def)

lemma realloc_bytes_take: "k \<le> n \<Longrightarrow> k \<le> length old \<Longrightarrow> take k (realloc_bytes old n) = take k old"
  by (simp add: realloc_bytes_def)

lemma memcpy_string:
  assumes "off + length s + 1 \<le> length buf"
  shows "length (memcpy_to buf off (s @ [NUL])) = length buf"
    and "take (off + length s) (memcpy_to buf off (s @ [NUL])) = take off buf @ map Some s"
    and "memcpy_to buf off (s @ [NUL]) ! (off + length s) = Some NUL"
proof -
  show "length (memcpy_to buf off (s @ [NUL])) = length buf"
    using assms by (simp add: memcpy_to_def)
  have "memcpy_to buf off (s @ [NUL]) = (take off buf @ map Some s) @ Some NUL # drop (off + length s + 1) buf"
    by (simp add: memcpy_to_def)
  moreover have "length (take off buf @ map Some s) = off + length s"
    using assms by simp
  ultimately show "take (off + length s) (memcpy_to buf off (s @ [NUL])) = take off buf @ map Some s"
    and "memcpy_to buf off (s @ [NUL]) ! (off + length s) = Some NUL"
    by (simp_all add: nth_append)
qed

lemma g_string_assign_holds:
  assumes "gstring_ok g" and "g_string_assign ok g rval = Some g'"
  shows "gstring_holds g' (case rval of None \<Rightarrow> [] | Some r \<Rightarrow> r)"
proof (cases rval)
  case None
  then have g': "g' = g\<lparr>str := (str g)[0 := Some NUL], GString.len := 0\<rparr>"
    using assms by (auto simp: g_string_assign_def gstring_ok_def Let_def split: if_splits)
  show ?thesis
    using assms(1) None unfolding g' by (simp add: gstring_holds_def gstring_ok_def)
next
  case (Some r)
  define buf where "buf = (if length r + 1 > allocated_len g
                           then realloc_bytes (str g) (length r + 1) else str g)"
  define cap where "cap = (if length r + 1 > allocated_len g then length r + 1 else allocated_len g)"
  have g': "g' = \<lparr>str = memcpy_to buf 0 (r @ [NUL]), GString.len = length r, allocated_len = cap\<rparr>"
    using assms(2) Some
    by (auto simp: g_string_assign_def Let_def buf_def cap_def split: if_splits)
  have fit: "0 + length r + 1 \<le> length buf" and cap: "length buf = cap"
    using assms(1) by (auto simp: buf_def cap_def gstring_ok_def realloc_bytes_length)
  show ?thesis
    using memcpy_string [OF fit] fit cap Some unfolding g'
    by (simp add: gstring_holds_def gstring_ok_def)
qed

lemma g_string_append_holds:
  assumes "gstring_holds g s" and "g_string_append ok g w = Some g'"
  shows "gstring_holds g' (case w of None \<Rightarrow> s | Some v \<Rightarrow> s @ v)"
proof (cases w)
  case None
  then show ?thesis using assms by (simp add: g_string_append_def)
next
  case (Some v)
  let ?n = "GString.len g + length v"
  define buf where "buf = (if ?n + 1 > allocated_len g
                           then realloc_bytes (str g) ((?n + 1) * 2) else str g)"
  define cap where "cap = (if ?n + 1 > allocated_len g then (?n + 1) * 2 else allocated_len g)"
  have g': "g' = \<lparr>str = memcpy_to buf (GString.len g) (v @ [NUL]), GString.len = ?n, allocated_len = cap\<rparr>"
    using assms(2) Some
    by (auto simp: g_string_append_def Let_def buf_def cap_def split: if_splits)
  have ok: "length (str g) = allocated_len g" "GString.len g + 1 \<le> allocated_len g"
    and held: "take (GString.len g) (str g) = map Some s"
    using assms(1) by (simp_all add: gstring_holds_def gstring_ok_def)
  have fit: "GString.len g + length v + 1 \<le> length buf" and cap: "length buf = cap"
    using ok by (auto simp: buf_def cap_def realloc_bytes_length)
  have keep: "take (GString.len g) buf = map Some s"
    using ok held by (auto simp: buf_def realloc_bytes_take)
  show ?thesis
    using memcpy_string [OF fit] cap keep fit Some unfolding g'
    by (simp add: gstring_holds_def gstring_ok_def)
qed

lemma gstring_step_holds:
  assumes "gstring_holds g s" and "gstring_step g x = Some g'"
  shows "gstring_holds g' (reference_step s x)"
proof (cases x)
  case (Assign ok rval)
  then show ?thesis
    using assms g_string_assign_holds [of g ok rval g'] by (simp add: gstring_holds_def)
next
  case (Append ok w)
  then show ?thesis
    using assms g_string_append_holds [of g s ok w g'] by simp
qed

lemma gstring_run_holds:
  "gstring_holds g s \<Longrightarrow> gstring_run g xs = Some g' \<Longrightarrow> gstring_holds g' (reference_run s xs)"
proof (induction xs arbitrary: g s)
  case Nil
  then show ?case by (simp add: reference_run_def)
next
  case (Cons x xs)
  then obtain g1 where g1: "gstring_step g x = Some g1" and r: "gstring_run g1 xs = Some g'"
    by (auto split: option.splits)
  have "gstring_holds g1 (reference_step s x)"
    using Cons.prems(1) g1 by (rule gstring_step_holds)
  then have "gstring_holds g' (reference_run (reference_step s x) xs)"
    using r by (rule Cons.IH)
  then show ?case by (simp add: reference_run_def)
qed

text \<open>Every buffer that \<^verbatim>\<open>g_string_new\<close> makes holds its initialiser.\<close>

lemma g_string_new_holds:
  "g_string_new True True init \<noteq> None \<and>
   gstring_holds (the (g_string_new True True init)) (case init of None \<Rightarrow> [] | Some s \<Rightarrow> s)"
proof (cases init)
  case None
  then show ?thesis
    by (simp add: g_string_new_def gstring_holds_def gstring_ok_def malloc_bytes_def)
next
  case (Some s)
  have fit: "0 + length s + 1 \<le> length (malloc_bytes (length s + 1))"
    by (simp add: malloc_bytes_def)
  show ?thesis
    using memcpy_string [OF fit] Some
    by (simp add: g_string_new_def gstring_holds_def gstring_ok_def malloc_bytes_def Let_def)
qed

text \<open>An operation whose reallocation succeeds does not fail.\<close>

lemma gstring_step_succeeds:
  "gstring_step g (Assign True rval) \<noteq> None" "gstring_step g (Append True w) \<noteq> None"
  by (simp_all add: g_string_assign_def g_string_append_def Let_def split: option.splits)

text \<open>
  Claim C3. For every string buffer (a well-formed buffer holding some text, as
  \<^verbatim>\<open>g_string_new\<close> makes them) and every sequence of assign and append operations
  that all succeed, the length of the buffer is the length of the text that the reference
  model gives, the buffer holds that text, the capacity is at least the length plus one,
  and the terminator is stored at position \<^verbatim>\<open>len\<close>. The sequence is arbitrary, so
  this holds after every operation of a run.
\<close>

theorem gstring_length_capacity:
  assumes "gstring_holds g s" and "gstring_run g xs = Some g'"
  shows "GString.len g' = length (reference_run s xs) \<and>
         take (GString.len g') (str g') = map Some (reference_run s xs) \<and>
         allocated_len g' \<ge> GString.len g' + 1 \<and>
         length (str g') = allocated_len g' \<and>
         str g' ! GString.len g' = Some NUL"
proof -
  have h: "gstring_holds g' (reference_run s xs)"
    using assms by (rule gstring_run_holds)
  then have "length (take (GString.len g') (str g')) = length (map Some (reference_run s xs))"
    by (simp add: gstring_holds_def)
  moreover have "GString.len g' \<le> length (str g')"
    using h by (simp add: gstring_holds_def gstring_ok_def)
  ultimately have "GString.len g' = length (reference_run s xs)"
    by simp
  then show ?thesis
    using h by (simp add: gstring_holds_def gstring_ok_def)
qed

text \<open>
  The buffer made from \<^verbatim>\<open>"ab"\<close>: appending \<^verbatim>\<open>"c"\<close> reallocates to 8 bytes,
  assigning \<^verbatim>\<open>"xy"\<close> then fits.
\<close>

theorem gstring_length_capacity_witness:
  "gstring_holds \<lparr>str = [Some CHR ''a'', Some CHR ''b'', Some NUL], GString.len = 2, allocated_len = 3\<rparr> ''ab'' \<and>
   gstring_run \<lparr>str = [Some CHR ''a'', Some CHR ''b'', Some NUL], GString.len = 2, allocated_len = 3\<rparr>
     [Append True (Some ''c''), Assign False (Some ''xy'')] =
     Some \<lparr>str = [Some CHR ''x'', Some CHR ''y'', Some NUL, Some NUL, None, None, None, None],
           GString.len = 2, allocated_len = 8\<rparr> \<and>
   reference_run ''ab'' [Append True (Some ''c''), Assign False (Some ''xy'')] = ''xy'' \<and>
   (2 :: nat) = length (reference_run ''ab'' [Append True (Some ''c''), Assign False (Some ''xy'')]) \<and>
   g_string_new True True (Some ''ab'') =
     Some \<lparr>str = [Some CHR ''a'', Some CHR ''b'', Some NUL], GString.len = 2, allocated_len = 3\<rparr>"
proof -
  let ?g = "\<lparr>str = [Some CHR ''a'', Some CHR ''b'', Some NUL], GString.len = 2, allocated_len = 3\<rparr>"
  let ?g' = "\<lparr>str = [Some CHR ''x'', Some CHR ''y'', Some NUL, Some NUL, None, None, None, None],
           GString.len = 2, allocated_len = 8\<rparr>"
  have h1: "gstring_holds ?g ''ab''"
    by (simp add: gstring_holds_def gstring_ok_def)
  have h2: "gstring_run ?g [Append True (Some ''c''), Assign False (Some ''xy'')] = Some ?g'"
    by (simp add: g_string_append_def g_string_assign_def realloc_bytes_def memcpy_to_def Let_def
        numeral_eq_Suc)
  have h3: "g_string_new True True (Some ''ab'') = Some ?g"
    by (simp add: g_string_new_def malloc_bytes_def memcpy_to_def Let_def)
  have h4: "reference_run ''ab'' [Append True (Some ''c''), Assign False (Some ''xy'')] = ''xy''"
    by (simp add: reference_run_def)
  from gstring_length_capacity [OF h1 h2]
  have "(2 :: nat) = length (reference_run ''ab'' [Append True (Some ''c''), Assign False (Some ''xy'')])"
    by simp
  then show ?thesis using h1 h2 h3 h4 by blast
qed

section \<open>Properties of the pointer array\<close>

lemma shift_down_stop: "\<not> j < n - 1 \<Longrightarrow> shift_down slots j n = slots"
  by (subst shift_down.simps) simp

lemma shift_down_step:
  "j < n - 1 \<Longrightarrow> shift_down slots j n = shift_down (slots[j := slots ! (j + 1)]) (j + 1) n"
  by (subst shift_down.simps) simp

lemma shift_down_spec:
  "n \<le> length slots \<Longrightarrow> j < n \<Longrightarrow>
   shift_down slots j n = take j slots @ drop (j + 1) (take n slots) @ drop (n - 1) slots"
proof (induction "n - j" arbitrary: j slots rule: less_induct)
  case less
  show ?case
  proof (cases "j < n - 1")
    case False
    then have j: "j = n - 1" using less.prems by simp
    have "take (n - 1) slots @ drop (n - 1) slots = slots" by simp
    then show ?thesis
      using False less.prems j by (simp add: shift_down_stop)
  next
    case True
    let ?s = "slots[j := slots ! (j + 1)]"
    have "shift_down ?s (j + 1) n =
            take (j + 1) ?s @ drop (j + 1 + 1) (take n ?s) @ drop (n - 1) ?s"
      using True less.prems by (intro less.hyps) simp_all
    moreover have "take (j + 1) ?s = take j slots @ [slots ! (j + 1)]"
      using True less.prems by (simp add: take_Suc_conv_app_nth)
    moreover have "drop (j + 1 + 1) (take n ?s) = drop (j + 2) (take n slots)"
      by (simp add: take_update_swap)
    moreover have "drop (n - 1) ?s = drop (n - 1) slots"
      using True by simp
    moreover have "drop (j + 1) (take n slots) = slots ! (j + 1) # drop (j + 2) (take n slots)"
    proof -
      have "j + 1 < length (take n slots)" using True less.prems by simp
      from Cons_nth_drop_Suc [OF this, symmetric] show ?thesis
        using True by simp
    qed
    ultimately show ?thesis
      using True by (simp add: shift_down_step)
  qed
qed

lemma shift_down_length: "length (shift_down slots j n) = length slots"
proof (induction slots j n rule: shift_down.induct)
  case (1 slots j n)
  then show ?case
    by (cases "j < n - 1") (simp_all add: shift_down_stop shift_down_step)
qed

lemma shift_down_elements:
  assumes "n \<le> length slots" "j < n"
  shows "take (n - 1) (shift_down slots j n) = take j (take n slots) @ drop (j + 1) (take n slots)"
proof -
  define A where "A = take j slots @ drop (j + 1) (take n slots)"
  have "length A = n - 1"
    using assms by (simp add: A_def)
  then have "take (n - 1) (A @ drop (n - 1) slots) = A"
    by simp
  moreover have "shift_down slots j n = A @ drop (n - 1) slots"
    using assms by (simp add: shift_down_spec A_def)
  moreover have "take j (take n slots) = take j slots"
    using assms by (simp add: min_def)
  ultimately show ?thesis
    by (simp add: A_def)
qed

lemma elements_nth: "i < len a \<Longrightarrow> len a \<le> capacity a \<Longrightarrow> elements a ! i = pdata a ! i"
  by (simp add: elements_def)

lemma elements_length: "len a \<le> capacity a \<Longrightarrow> length (elements a) = len a"
  by (simp add: elements_def capacity_def)

lemma remove_loop_spec:
  assumes wf: "len a \<le> capacity a"
  shows "i \<le> len a \<Longrightarrow>
         g_ptr_array_remove_loop a d i =
           (if d \<in> set (drop i (elements a))
            then (True, a\<lparr>pdata := shift_down (pdata a)
                                   (i + length (takeWhile (\<lambda>x. x \<noteq> d) (drop i (elements a)))) (len a),
                          len := len a - 1\<rparr>)
            else (False, a))"
proof (induction "len a - i" arbitrary: i rule: less_induct)
  case less
  show ?case
  proof (cases "i < len a")
    case False
    then have "drop i (elements a) = []"
      using wf by (simp add: elements_length)
    then show ?thesis
      using False by (subst g_ptr_array_remove_loop.simps) simp
  next
    case True
    then have "i < length (elements a)"
      using wf by (simp add: elements_length)
    from Cons_nth_drop_Suc [OF this, symmetric]
    have d: "drop i (elements a) = pdata a ! i # drop (i + 1) (elements a)"
      using True wf by (simp add: elements_nth)
    show ?thesis
    proof (cases "pdata a ! i = d")
      case eq: True
      then show ?thesis
        using True d by (subst g_ptr_array_remove_loop.simps) simp
    next
      case False
      have "g_ptr_array_remove_loop a d i = g_ptr_array_remove_loop a d (i + 1)"
        using True False by (subst g_ptr_array_remove_loop.simps) simp
      also have "\<dots> = (if d \<in> set (drop (i + 1) (elements a))
            then (True, a\<lparr>pdata := shift_down (pdata a)
                                   (i + 1 + length (takeWhile (\<lambda>x. x \<noteq> d) (drop (i + 1) (elements a)))) (len a),
                          len := len a - 1\<rparr>)
            else (False, a))"
        using True by (intro less.hyps) simp_all
      finally show ?thesis
        using False d by simp
    qed
  qed
qed

lemma remove1_takeWhile:
  "d \<in> set xs \<Longrightarrow>
   remove1 d xs = take (length (takeWhile (\<lambda>x. x \<noteq> d) xs)) xs
                  @ drop (length (takeWhile (\<lambda>x. x \<noteq> d) xs) + 1) xs"
  by (induction xs) auto

lemma takeWhile_lt: "d \<in> set xs \<Longrightarrow> length (takeWhile (\<lambda>x. x \<noteq> d) xs) < length xs"
  by (induction xs) auto

lemma g_ptr_array_remove_spec:
  assumes wf: "len a \<le> capacity a"
  shows "fst (g_ptr_array_remove a d) = (d \<in> set (elements a))"
    and "elements (snd (g_ptr_array_remove a d)) = remove1 d (elements a)"
    and "len (snd (g_ptr_array_remove a d)) = (if d \<in> set (elements a) then len a - 1 else len a)"
    and "capacity (snd (g_ptr_array_remove a d)) = capacity a"
proof -
  let ?i = "length (takeWhile (\<lambda>x. x \<noteq> d) (elements a))"
  have r: "g_ptr_array_remove a d =
           (if d \<in> set (elements a)
            then (True, a\<lparr>pdata := shift_down (pdata a) ?i (len a), len := len a - 1\<rparr>)
            else (False, a))"
    using remove_loop_spec [OF wf, of 0 d] by (simp add: g_ptr_array_remove_def)
  show "fst (g_ptr_array_remove a d) = (d \<in> set (elements a))"
    and "len (snd (g_ptr_array_remove a d)) = (if d \<in> set (elements a) then len a - 1 else len a)"
    and "capacity (snd (g_ptr_array_remove a d)) = capacity a"
    by (simp_all add: r capacity_def shift_down_length)
  show "elements (snd (g_ptr_array_remove a d)) = remove1 d (elements a)"
  proof (cases "d \<in> set (elements a)")
    case False
    then show ?thesis by (simp add: r remove1_idem)
  next
    case True
    then have i: "?i < len a"
      using takeWhile_lt [OF True] wf by (simp add: elements_length)
    have "take (len a - 1) (shift_down (pdata a) ?i (len a))
            = take ?i (take (len a) (pdata a)) @ drop (?i + 1) (take (len a) (pdata a))"
      using wf i by (intro shift_down_elements) (simp_all add: capacity_def)
    then show ?thesis
      using True remove1_takeWhile [OF True] by (simp add: r elements_def)
  qed
qed

lemma g_ptr_array_add_spec:
  assumes wf: "len a \<le> capacity a"
  shows "elements (g_ptr_array_add True a h) = elements a @ [h]"
    and "len (g_ptr_array_add True a h) = len a + 1"
    and "capacity (g_ptr_array_add True a h) = len a + 1"
    and "g_ptr_array_add False a h = a"
  using wf by (simp_all add: g_ptr_array_add_def elements_def capacity_def)

lemma array_step_spec:
  assumes "len a \<le> capacity a"
  shows "elements (array_step a x) = list_step (elements a) x"
    and "len (array_step a x) \<le> capacity (array_step a x)"
proof -
  show "elements (array_step a x) = list_step (elements a) x"
    using assms by (cases x) (simp_all add: g_ptr_array_add_spec g_ptr_array_remove_spec)
  show "len (array_step a x) \<le> capacity (array_step a x)"
  proof (cases x)
    case (Add ok h)
    then show ?thesis
      using assms by (cases ok) (simp_all add: g_ptr_array_add_spec)
  next
    case (Remove h)
    then show ?thesis
      using assms by (auto simp: g_ptr_array_remove_spec)
  qed
qed

lemma array_run_spec:
  "len a \<le> capacity a \<Longrightarrow>
   elements (array_run a xs) = foldl list_step (elements a) xs \<and>
   len (array_run a xs) \<le> capacity (array_run a xs)"
proof (induction xs arbitrary: a)
  case Nil
  then show ?case by (simp add: array_run_def)
next
  case (Cons x xs)
  have "elements (array_run (array_step a x) xs) = foldl list_step (elements (array_step a x)) xs \<and>
        len (array_run (array_step a x) xs) \<le> capacity (array_run (array_step a x) xs)"
    using Cons.prems by (intro Cons.IH array_step_spec)
  then show ?case
    using Cons.prems by (simp add: array_run_def array_step_spec)
qed

lemma takeWhile_first:
  "i < length xs \<Longrightarrow> xs ! i = d \<Longrightarrow> \<forall>k<i. xs ! k \<noteq> d \<Longrightarrow>
   length (takeWhile (\<lambda>x. x \<noteq> d) xs) = i"
proof (induction xs arbitrary: i)
  case Nil
  then show ?case by simp
next
  case (Cons x xs)
  show ?case
  proof (cases i)
    case 0
    then show ?thesis using Cons.prems by simp
  next
    case (Suc i')
    have "x \<noteq> d" using Cons.prems(3) Suc by auto
    moreover have "length (takeWhile (\<lambda>x. x \<noteq> d) xs) = i'"
      using Cons.prems Suc by (intro Cons.IH) auto
    ultimately show ?thesis using Suc by simp
  qed
qed

lemma remove_slots:
  assumes wf: "len a \<le> capacity a"
    and i: "i < len a" "pdata a ! i = h" "\<forall>k<i. pdata a ! k \<noteq> h"
    and k: "k < len a - 1"
  shows "pdata (snd (g_ptr_array_remove a h)) ! k = (if k < i then pdata a ! k else pdata a ! (k + 1))"
proof -
  have len: "length (elements a) = len a" using wf by (rule elements_length)
  have "\<forall>k<i. elements a ! k \<noteq> h"
    using i wf by (simp add: elements_nth)
  moreover have "elements a ! i = h" using i wf by (simp add: elements_nth)
  ultimately have f: "length (takeWhile (\<lambda>x. x \<noteq> h) (elements a)) = i"
    using i(1) len by (intro takeWhile_first) simp_all
  have "elements a ! i \<in> set (elements a)"
    using i(1) len by (intro nth_mem) simp
  then have m: "h \<in> set (elements a)" using \<open>elements a ! i = h\<close> by simp
  have "g_ptr_array_remove a h =
          (True, a\<lparr>pdata := shift_down (pdata a) i (len a), len := len a - 1\<rparr>)"
    using remove_loop_spec [OF wf, of 0 h] m f by (simp add: g_ptr_array_remove_def)
  then have "pdata (snd (g_ptr_array_remove a h)) = shift_down (pdata a) i (len a)"
    by simp
  also have "\<dots> = take i (pdata a) @ drop (i + 1) (take (len a) (pdata a)) @ drop (len a - 1) (pdata a)"
    using wf i(1) by (intro shift_down_spec) (simp_all add: capacity_def)
  finally have p: "pdata (snd (g_ptr_array_remove a h)) =
      take i (pdata a) @ drop (i + 1) (take (len a) (pdata a)) @ drop (len a - 1) (pdata a)" .
  have li: "length (take i (pdata a)) = i"
    using wf i(1) by (simp add: capacity_def)
  show ?thesis
  proof (cases "k < i")
    case True
    then show ?thesis using p li by (simp add: nth_append)
  next
    case False
    then have "k - i < length (drop (i + 1) (take (len a) (pdata a)))"
      using k wf i(1) by (simp add: capacity_def)
    then have "pdata (snd (g_ptr_array_remove a h)) ! k = drop (i + 1) (take (len a) (pdata a)) ! (k - i)"
      using False p li by (simp add: nth_append)
    also have "\<dots> = pdata a ! (k + 1)"
      using False k wf by (simp add: capacity_def)
    finally show ?thesis using False by simp
  qed
qed

text \<open>
  Claim C8. For every pointer array (its count within its block) and every sequence of
  append and remove operations, the elements other than a removed one keep their relative
  order: an append places the new handle at the last position, after the elements that
  were there (one whose reallocation fails is a no-op and changes nothing, the order
  included); remove returns whether the handle is among the elements and deletes its
  first occurrence, that is, with \<open>i\<close> the first slot identical to the handle, the slots
  before \<open>i\<close> stay, every later slot moves left by one, and the length goes down by one.
  A run of operations, failing appends among them, does to the elements what the
  operations on lists do.
\<close>

theorem g_ptr_array_order:
  assumes "len a \<le> capacity a"
  shows "elements (g_ptr_array_add True a h) = elements a @ [h] \<and>
         g_ptr_array_add False a h = a \<and>
         fst (g_ptr_array_remove a h) = (h \<in> set (elements a)) \<and>
         elements (snd (g_ptr_array_remove a h)) = remove1 h (elements a) \<and>
         len (snd (g_ptr_array_remove a h)) = (if h \<in> set (elements a) then len a - 1 else len a) \<and>
         (\<forall>i k. i < len a \<and> pdata a ! i = h \<and> (\<forall>k<i. pdata a ! k \<noteq> h) \<and> k < len a - 1 \<longrightarrow>
            pdata (snd (g_ptr_array_remove a h)) ! k
              = (if k < i then pdata a ! k else pdata a ! (k + 1))) \<and>
         elements (array_run a xs) = foldl list_step (elements a) xs \<and>
         len (array_run a xs) \<le> capacity (array_run a xs)"
  using assms
  by (simp add: g_ptr_array_add_spec g_ptr_array_remove_spec array_run_spec remove_slots)

text \<open>The example of the specification: append A, B, C, remove B.\<close>

theorem g_ptr_array_order_witness:
  "len \<lparr>len = 0, pdata = []\<rparr> \<le> capacity \<lparr>len = 0, pdata = ([] :: nat list)\<rparr> \<and>
   elements (array_run \<lparr>len = 0, pdata = []\<rparr> [Add True 10, Add True 20, Add True 30, Remove 20])
     = [10, 30 :: nat] \<and>
   g_ptr_array_new True = Some \<lparr>len = 0, pdata = ([] :: nat list)\<rparr>"
proof -
  have h: "len \<lparr>len = 0, pdata = []\<rparr> \<le> capacity \<lparr>len = 0, pdata = ([] :: nat list)\<rparr>"
    by (simp add: capacity_def)
  from g_ptr_array_order [OF h, of 0 "[Add True 10, Add True 20, Add True 30, Remove 20]"]
  have "elements (array_run \<lparr>len = 0, pdata = []\<rparr> [Add True 10, Add True 20, Add True 30, Remove 20])
          = foldl list_step (elements \<lparr>len = 0, pdata = ([] :: nat list)\<rparr>)
              [Add True 10, Add True 20, Add True 30, Remove 20]"
    by blast
  then show ?thesis
    using h by (simp add: elements_def g_ptr_array_new_def)
qed

text \<open>
  Claim C9, as amended. For every pointer array, an append whose reallocation succeeds
  leaves a block of exactly \<^verbatim>\<open>len + 1\<close> slots, which is one slot more than before
  when the block was full, and stores the handle at the new last position, after the
  elements that were there; if the reallocation fails, the array is unchanged.
\<close>

theorem g_ptr_array_add_storage:
  assumes "len a \<le> capacity a"
  shows "capacity (g_ptr_array_add True a h) = len a + 1 \<and>
         (capacity a = len a \<longrightarrow> capacity (g_ptr_array_add True a h) = capacity a + 1) \<and>
         len (g_ptr_array_add True a h) = len a + 1 \<and>
         pdata (g_ptr_array_add True a h) ! len a = h \<and>
         elements (g_ptr_array_add True a h) = elements a @ [h] \<and>
         g_ptr_array_add False a h = a"
  using assms
  by (simp add: g_ptr_array_add_spec) (simp add: g_ptr_array_add_def capacity_def nth_append)

lemma remove_example:
  "g_ptr_array_remove \<lparr>len = 2, pdata = [10, 20 :: nat]\<rparr> 10 = (True, \<lparr>len = 1, pdata = [20, 20]\<rparr>)"
  by (simp add: g_ptr_array_remove_def g_ptr_array_remove_loop.simps shift_down.simps)

text \<open>An array of two elements in a block of three slots, as a removal leaves it.\<close>

theorem g_ptr_array_add_storage_witness:
  "len \<lparr>len = 2, pdata = [10, 20, 20 :: nat]\<rparr> \<le> capacity \<lparr>len = 2, pdata = [10, 20, 20 :: nat]\<rparr> \<and>
   capacity (g_ptr_array_add True \<lparr>len = 2, pdata = [10, 20, 20 :: nat]\<rparr> 30) = 3 \<and>
   len (g_ptr_array_add True \<lparr>len = 2, pdata = [10, 20, 20 :: nat]\<rparr> 30) = 3 \<and>
   pdata (g_ptr_array_add True \<lparr>len = 2, pdata = [10, 20, 20 :: nat]\<rparr> 30) ! 2 = 30 \<and>
   elements (g_ptr_array_add True \<lparr>len = 2, pdata = [10, 20, 20 :: nat]\<rparr> 30) = [10, 20, 30] \<and>
   g_ptr_array_add False \<lparr>len = 2, pdata = [10, 20, 20 :: nat]\<rparr> 30 = \<lparr>len = 2, pdata = [10, 20, 20]\<rparr>"
proof -
  have h: "len \<lparr>len = 2, pdata = [10, 20, 20 :: nat]\<rparr> \<le> capacity \<lparr>len = 2, pdata = [10, 20, 20 :: nat]\<rparr>"
    by (simp add: capacity_def)
  have e: "elements \<lparr>len = 2, pdata = [10, 20, 20 :: nat]\<rparr> = [10, 20]"
    by (simp add: elements_def)
  from g_ptr_array_add_storage [OF h, of 30] show ?thesis
    using h by (simp add: e)
qed

text \<open>
  Claim C9 as stated fails after a removal, which does not shrink the block: appending 10
  and 20 and removing 10 leaves one element in a block of two slots, and the next append
  reallocates to two slots again, so the storage does not grow.
\<close>

theorem g_ptr_array_add_storage_counterexample:
  "capacity (snd (g_ptr_array_remove \<lparr>len = 2, pdata = [10, 20 :: nat]\<rparr> 10)) = 2 \<and>
   capacity (g_ptr_array_add True (snd (g_ptr_array_remove \<lparr>len = 2, pdata = [10, 20 :: nat]\<rparr> 10)) 30) = 2 \<and>
   g_ptr_array_add True (g_ptr_array_add True \<lparr>len = 0, pdata = []\<rparr> 10) 20 = \<lparr>len = 2, pdata = [10, 20 :: nat]\<rparr>"
  by (simp add: remove_example g_ptr_array_add_def capacity_def)

section \<open>Properties of the associative container\<close>

lemma slot_keys_append: "slot_keys (xs @ ys) = slot_keys xs @ slot_keys ys"
proof (induction xs)
  case Nil
  then show ?case by simp
next
  case (Cons x xs)
  then show ?case by (cases x) simp_all
qed

lemma no_equal_keys_append:
  "no_equal_keys cmp (as @ bs) \<longleftrightarrow>
     no_equal_keys cmp as \<and> no_equal_keys cmp bs \<and>
     (\<forall>a \<in> set as. \<forall>b \<in> set bs. \<not> cmp a b \<and> \<not> cmp b a)"
  by (induction as) auto

lemma no_equal_keys_drop_one:
  assumes "no_equal_keys cmp (slot_keys es)"
  shows "no_equal_keys cmp (slot_keys (take i es @ drop (i + 1) es))"
proof (cases "i < length es")
  case False
  then show ?thesis using assms by simp
next
  case True
  then have "es = take i es @ [es ! i] @ drop (i + 1) es"
    by (simp add: id_take_nth_drop)
  then have "slot_keys es = slot_keys (take i es) @ slot_keys [es ! i] @ slot_keys (drop (i + 1) es)"
    by (metis slot_keys_append)
  then show ?thesis
    using assms by (auto simp: slot_keys_append no_equal_keys_append)
qed

lemma slot_keys_matches:
  "(\<exists>s \<in> set es. entry_matches cmp k s) \<longleftrightarrow> (\<exists>x \<in> set (slot_keys es). cmp x k)"
proof (induction es)
  case Nil
  then show ?case by simp
next
  case (Cons e es)
  then show ?case by (cases e) (simp_all add: entry_matches_def)
qed

lemma slot_keys_update:
  assumes "i < length es"
  shows "slot_keys (es[i := map_option (\<lambda>e. e\<lparr>val := v\<rparr>) (es ! i)]) = slot_keys es"
  using assms
proof (induction es arbitrary: i)
  case Nil
  then show ?case by simp
next
  case (Cons e es)
  show ?case
  proof (cases i)
    case 0
    then show ?thesis by (cases e) simp_all
  next
    case (Suc j)
    then show ?thesis using Cons by (cases e) simp_all
  qed
qed

text \<open>Removing the slot at index \<open>i\<close>, as the three removal loops do.\<close>

lemma remove_at_elements:
  assumes "len a \<le> capacity a" "i < len a"
  shows "elements (a\<lparr>pdata := shift_down (pdata a) i (len a), len := len a - 1\<rparr>)
           = take i (elements a) @ drop (i + 1) (elements a)"
    and "len (a\<lparr>pdata := shift_down (pdata a) i (len a), len := len a - 1\<rparr>)
           \<le> capacity (a\<lparr>pdata := shift_down (pdata a) i (len a), len := len a - 1\<rparr>)"
  using assms shift_down_elements [of "len a" "pdata a" i]
  by (simp_all add: elements_def capacity_def shift_down_length)

lemma remove_at_inv:
  assumes "array_inv cmp a" "i < len a"
  shows "array_inv cmp (a\<lparr>pdata := shift_down (pdata a) i (len a), len := len a - 1\<rparr>)"
  using assms remove_at_elements [of a i] no_equal_keys_drop_one [of cmp "elements a" i]
  by (simp add: array_inv_def)

lemma remove_loop_inv:
  "array_inv cmp a \<Longrightarrow> array_inv cmp (snd (remove_loop cmp a k i))"
proof (induction cmp a k i rule: remove_loop.induct)
  case (1 cmp a k i)
  show ?case
  proof (cases "i < len a")
    case False
    then show ?thesis using 1(2) by (subst remove_loop.simps) simp
  next
    case True
    show ?thesis
    proof (cases "entry_matches cmp k (pdata a ! i)")
      case m: True
      then show ?thesis
        using True 1(2) remove_at_inv [of cmp a i] by (subst remove_loop.simps) simp
    next
      case False
      then show ?thesis
        using True 1 by (subst remove_loop.simps) simp
    qed
  qed
qed

lemma foreach_remove_loop_inv:
  "array_inv cmp a \<Longrightarrow> array_inv cmp (foreach_remove_loop f a i)"
proof (induction f a i rule: foreach_remove_loop.induct)
  case (1 f a i)
  show ?case
  proof (cases "i < len a")
    case False
    then show ?thesis using 1(3) by (subst foreach_remove_loop.simps) simp
  next
    case True
    show ?thesis
    proof (cases "entry_selected f (pdata a ! i)")
      case s: True
      have "array_inv cmp (a\<lparr>pdata := shift_down (pdata a) i (len a), len := len a - 1\<rparr>)"
        using 1(3) True by (rule remove_at_inv)
      then show ?thesis
        using True s 1(1) by (subst foreach_remove_loop.simps) simp
    next
      case False
      then show ?thesis
        using True 1(2,3) by (subst foreach_remove_loop.simps) simp
    qed
  qed
qed

text \<open>The scan of \<^verbatim>\<open>g_hash_table_insert\<close>.\<close>

lemma insert_loop_Some:
  "insert_loop cmp a k v i = Some a' \<Longrightarrow> len a \<le> capacity a \<Longrightarrow>
         len a' = len a \<and> capacity a' = capacity a \<and>
         slot_keys (elements a') = slot_keys (elements a) \<and>
         (\<forall>m < i. pdata a' ! m = pdata a ! m) \<and>
         (\<exists>e. lookup_loop cmp a' k i = Some e \<and> val e = v)"
proof (induction cmp a k v i rule: insert_loop.induct)
  case (1 cmp a k v i)
  have i: "i < len a"
    using 1(2) by (subst (asm) insert_loop.simps) (simp split: if_splits)
  show ?case
  proof (cases "entry_matches cmp k (pdata a ! i)")
    case True
    then obtain e where e: "pdata a ! i = Some e" "cmp (key e) k"
      by (auto simp: entry_matches_def split: option.splits)
    have a': "a' = a\<lparr>pdata := (pdata a)[i := Some (e\<lparr>val := v\<rparr>)]\<rparr>"
      using 1(2) i True e by (subst (asm) insert_loop.simps) simp
    have il: "i < length (pdata a)" using i 1(3) by (simp add: capacity_def)
    have "elements a' = (elements a)[i := map_option (\<lambda>e. e\<lparr>val := v\<rparr>) (elements a ! i)]"
      using i il e by (simp add: a' elements_def take_update_swap)
    moreover have "i < length (elements a)" using i il by (simp add: elements_def)
    ultimately have "slot_keys (elements a') = slot_keys (elements a)"
      by (simp add: slot_keys_update)
    moreover have "lookup_loop cmp a' k i = Some (e\<lparr>val := v\<rparr>)"
      using i il e by (subst lookup_loop.simps) (simp add: a' entry_matches_def)
    ultimately show ?thesis
      using il by (auto simp: a' capacity_def)
  next
    case False
    then have r: "insert_loop cmp a k v (i + 1) = Some a'"
      using 1(2) i by (subst (asm) insert_loop.simps) simp
    from 1(1) [OF i False r 1(3)]
    have ih: "len a' = len a" "capacity a' = capacity a"
      "slot_keys (elements a') = slot_keys (elements a)"
      "\<forall>m < i + 1. pdata a' ! m = pdata a ! m"
      "\<exists>e. lookup_loop cmp a' k (i + 1) = Some e \<and> val e = v"
      by auto
    have "pdata a' ! i = pdata a ! i" using ih(4) by simp
    then have "lookup_loop cmp a' k i = lookup_loop cmp a' k (i + 1)"
      using False i ih(1) by (subst lookup_loop.simps) simp
    then show ?thesis using ih by auto
  qed
qed

lemma insert_loop_None_iff:
  "insert_loop cmp a k v i = None \<longleftrightarrow> lookup_loop cmp a k i = None"
proof (induction cmp a k v i rule: insert_loop.induct)
  case (1 cmp a k v i)
  show ?case
  proof (cases "i < len a")
    case False
    then show ?thesis
      by (subst insert_loop.simps, subst lookup_loop.simps) simp
  next
    case True
    show ?thesis
    proof (cases "entry_matches cmp k (pdata a ! i)")
      case m: True
      then show ?thesis
        using True
        by (subst insert_loop.simps, subst lookup_loop.simps)
          (auto simp: entry_matches_def split: option.splits)
    next
      case False
      then show ?thesis
        using True 1 by (subst insert_loop.simps, subst lookup_loop.simps) simp
    qed
  qed
qed

lemma lookup_loop_None:
  "lookup_loop cmp a k i = None \<Longrightarrow> i \<le> m \<Longrightarrow> m < len a \<Longrightarrow>
   \<not> entry_matches cmp k (pdata a ! m)"
proof (induction cmp a k i rule: lookup_loop.induct)
  case (1 cmp a k i)
  have i: "i < len a" using 1(3,4) by simp
  have n: "\<not> entry_matches cmp k (pdata a ! i)"
    using 1(2) i by (subst (asm) lookup_loop.simps) (auto simp: entry_matches_def split: if_splits)
  show ?case
  proof (cases "m = i")
    case True
    then show ?thesis using n by simp
  next
    case False
    have "lookup_loop cmp a k (i + 1) = None"
      using 1(2) i n by (subst (asm) lookup_loop.simps) simp
    then show ?thesis
      using 1(1) [OF i n] 1(3,4) False by simp
  qed
qed

lemma lookup_loop_skip:
  "i \<le> n \<Longrightarrow> n \<le> len a \<Longrightarrow>
   \<forall>m. i \<le> m \<and> m < n \<longrightarrow> \<not> entry_matches cmp k (pdata a ! m) \<Longrightarrow>
   lookup_loop cmp a k i = lookup_loop cmp a k n"
proof (induction "n - i" arbitrary: i rule: less_induct)
  case less
  show ?case
  proof (cases "i = n")
    case True
    then show ?thesis by simp
  next
    case False
    then have i: "i < n" using less.prems by simp
    then have "\<not> entry_matches cmp k (pdata a ! i)" using less.prems(3) by auto
    then have "lookup_loop cmp a k i = lookup_loop cmp a k (i + 1)"
      using i less.prems(2) by (subst lookup_loop.simps) simp
    also have "\<dots> = lookup_loop cmp a k n"
      using i less.prems(2,3) by (intro less.hyps) simp_all
    finally show ?thesis .
  qed
qed

lemma no_match_keys:
  assumes "len a \<le> capacity a" and "lookup_loop cmp a k 0 = None"
  shows "\<forall>x \<in> set (slot_keys (elements a)). \<not> cmp x k"
proof -
  have "\<not> entry_matches cmp k s" if "s \<in> set (elements a)" for s
  proof -
    from that obtain m where m: "m < length (elements a)" "elements a ! m = s"
      by (auto simp: in_set_conv_nth)
    then have "m < len a" using assms(1) by (simp add: elements_length)
    then show ?thesis
      using lookup_loop_None [OF assms(2), of m] m assms(1) by (simp add: elements_nth)
  qed
  then show ?thesis
    using slot_keys_matches [of "elements a" cmp k] by blast
qed

lemma insert_new_lookup:
  assumes "len a \<le> capacity a" and "lookup_loop cmp a k 0 = None" and "cmp k k"
  shows "lookup_loop cmp (g_ptr_array_add True a (Some \<lparr>key = k, val = v\<rparr>)) k 0
           = Some \<lparr>key = k, val = v\<rparr>"
proof -
  let ?a = "g_ptr_array_add True a (Some \<lparr>key = k, val = v\<rparr>)"
  have p: "pdata ?a = take (len a) (pdata a) @ [Some \<lparr>key = k, val = v\<rparr>]" and l: "len ?a = len a + 1"
    by (simp_all add: g_ptr_array_add_def)
  have lt: "length (take (len a) (pdata a)) = len a"
    using assms(1) by (simp add: capacity_def)
  have "\<forall>m. 0 \<le> m \<and> m < len a \<longrightarrow> \<not> entry_matches cmp k (pdata ?a ! m)"
    using lookup_loop_None [OF assms(2)] lt by (simp add: p nth_append)
  then have "lookup_loop cmp ?a k 0 = lookup_loop cmp ?a k (len a)"
    using l by (intro lookup_loop_skip) simp_all
  also have "\<dots> = Some \<lparr>key = k, val = v\<rparr>"
    using assms(3) lt l by (subst lookup_loop.simps) (simp add: p nth_append entry_matches_def)
  finally show ?thesis .
qed

lemma g_hash_table_new_inv:
  "g_hash_table_new malloc_ok array_ok cmp = Some t \<Longrightarrow> table_inv cmp t"
  by (auto simp: g_hash_table_new_def g_ptr_array_new_def table_inv_def array_inv_def
      elements_def capacity_def split: if_splits)

lemma g_hash_table_insert_inv:
  assumes "table_inv cmp t" and sym: "\<forall>x y. cmp x y \<longrightarrow> cmp y x"
  shows "table_inv cmp (g_hash_table_insert malloc_ok realloc_ok t k v)"
proof (cases "array t")
  case None
  then show ?thesis using assms(1) by (simp add: g_hash_table_insert_def)
next
  case (Some a)
  then have inv: "array_inv cmp a" and c: "compare t = cmp"
    using assms(1) by (simp_all add: table_inv_def)
  then have wf: "len a \<le> capacity a" by (simp add: array_inv_def)
  show ?thesis
  proof (cases "insert_loop cmp a k v 0")
    case found: (Some a')
    from insert_loop_Some [OF found wf] have "array_inv cmp a'"
      using inv by (simp add: array_inv_def)
    then show ?thesis
      using Some found c by (simp add: g_hash_table_insert_def table_inv_def)
  next
    case None
    then have n: "lookup_loop cmp a k 0 = None" by (simp add: insert_loop_None_iff)
    have "\<forall>x \<in> set (slot_keys (elements a)). \<not> cmp x k \<and> \<not> cmp k x"
      using no_match_keys [OF wf n] sym by blast
    then have "array_inv cmp (g_ptr_array_add True a (Some \<lparr>key = k, val = v\<rparr>))"
      using inv wf
      by (simp add: array_inv_def g_ptr_array_add_spec slot_keys_append no_equal_keys_append)
    moreover have "g_ptr_array_add False a (Some \<lparr>key = k, val = v\<rparr>) = a"
      by (simp add: g_ptr_array_add_def)
    ultimately have "array_inv cmp (g_ptr_array_add realloc_ok a (Some \<lparr>key = k, val = v\<rparr>))"
      using inv by (cases realloc_ok) simp_all
    then show ?thesis
      using Some None c assms(1) by (simp add: g_hash_table_insert_def table_inv_def)
  qed
qed

lemma g_hash_table_remove_inv:
  assumes "table_inv cmp t"
  shows "table_inv cmp (snd (g_hash_table_remove t k))"
proof (cases "array t")
  case None
  then show ?thesis using assms by (simp add: g_hash_table_remove_def)
next
  case (Some a)
  then have "array_inv cmp (snd (remove_loop cmp a k 0))"
    using assms by (intro remove_loop_inv) (simp add: table_inv_def)
  then show ?thesis
    using Some assms by (auto simp: g_hash_table_remove_def table_inv_def split: prod.splits)
qed

lemma g_hash_table_foreach_remove_inv:
  assumes "table_inv cmp t"
  shows "table_inv cmp (g_hash_table_foreach_remove t f)"
proof (cases "array t")
  case None
  then show ?thesis using assms by (simp add: g_hash_table_foreach_remove_def)
next
  case (Some a)
  show ?thesis
  proof (cases f)
    case None
    then show ?thesis using assms Some by (simp add: g_hash_table_foreach_remove_def)
  next
    case f: (Some g)
    have "array_inv cmp (foreach_remove_loop g a 0)"
      using assms Some by (intro foreach_remove_loop_inv) (simp add: table_inv_def)
    then show ?thesis
      using Some f assms by (simp add: g_hash_table_foreach_remove_def table_inv_def)
  qed
qed

lemma table_step_inv:
  assumes "table_inv cmp t" and "\<forall>x y. cmp x y \<longrightarrow> cmp y x"
  shows "table_inv cmp (table_step t x)"
  using assms
  by (cases x)
    (simp_all add: g_hash_table_insert_inv g_hash_table_remove_inv g_hash_table_foreach_remove_inv)

lemma table_run_inv:
  assumes "\<forall>x y. cmp x y \<longrightarrow> cmp y x"
  shows "table_inv cmp t \<Longrightarrow> table_inv cmp (table_run t xs)"
proof (induction xs arbitrary: t)
  case Nil
  then show ?case by (simp add: table_run_def)
next
  case (Cons x xs)
  have "table_inv cmp (table_run (table_step t x) xs)"
    using Cons.prems assms by (intro Cons.IH table_step_inv)
  then show ?case by (simp add: table_run_def)
qed

lemma insert_then_lookup:
  assumes inv: "table_inv cmp t" and refl: "\<forall>x. cmp x x"
    and ok: "g_hash_table_lookup_extended t k \<noteq> None \<or> (array t \<noteq> None \<and> malloc_ok \<and> realloc_ok)"
  shows "g_hash_table_lookup (g_hash_table_insert malloc_ok realloc_ok t k v) k = v"
proof (cases "array t")
  case None
  then show ?thesis using ok by (simp add: g_hash_table_lookup_extended_def)
next
  case (Some a)
  then have wf: "len a \<le> capacity a" and c: "compare t = cmp"
    using inv by (simp_all add: table_inv_def array_inv_def)
  show ?thesis
  proof (cases "insert_loop cmp a k v 0")
    case found: (Some a')
    from insert_loop_Some [OF found wf] obtain e where
      "lookup_loop cmp a' k 0 = Some e" "val e = v" by blast
    then show ?thesis
      using Some found c by (simp add: g_hash_table_insert_def g_hash_table_lookup_def)
  next
    case None
    then have n: "lookup_loop cmp a k 0 = None" by (simp add: insert_loop_None_iff)
    then have "g_hash_table_lookup_extended t k = None"
      using Some c by (simp add: g_hash_table_lookup_extended_def)
    then have "malloc_ok" "realloc_ok" using ok by simp_all
    moreover have "lookup_loop cmp (g_ptr_array_add True a (Some \<lparr>key = k, val = v\<rparr>)) k 0
           = Some \<lparr>key = k, val = v\<rparr>"
      using wf n refl by (intro insert_new_lookup) simp_all
    ultimately show ?thesis
      using Some None c by (simp add: g_hash_table_insert_def g_hash_table_lookup_def)
  qed
qed

lemma insert_failed_unchanged:
  assumes "g_hash_table_lookup_extended t k = None" and "\<not> (malloc_ok \<and> realloc_ok)"
  shows "g_hash_table_insert malloc_ok realloc_ok t k v = t"
proof (cases "array t")
  case None
  then show ?thesis by (simp add: g_hash_table_insert_def)
next
  case (Some a)
  then have "lookup_loop (compare t) a k 0 = None"
    using assms(1) by (simp add: g_hash_table_lookup_extended_def split: option.splits)
  then have "insert_loop (compare t) a k v 0 = None"
    by (simp add: insert_loop_None_iff)
  moreover have "t\<lparr>array := Some a\<rparr> = t"
    using Some by simp
  ultimately show ?thesis
    using Some assms(2) by (auto simp: g_hash_table_insert_def g_ptr_array_add_def)
qed

text \<open>
  Claim C2, as amended. For every table built by \<^verbatim>\<open>g_hash_table_new\<close> with a
  predicate that is an equivalence, after any sequence of insert, remove and
  foreach-remove operations, whatever their allocations do, no two stored entries have
  keys that are equal under the predicate; and an insert followed by a lookup of the same
  key returns the inserted value, provided the key was stored already or the table has
  its array and both allocations of the insert succeed. An insert of a key that is not
  stored, with an allocation that fails, leaves the table as it was.
\<close>

theorem g_hash_table_unique_keys:
  assumes "equivp cmp" and "g_hash_table_new table_ok array_ok cmp = Some t0"
  shows "no_equal_keys cmp (stored_keys (table_run t0 xs)) \<and>
         (g_hash_table_lookup_extended (table_run t0 xs) k \<noteq> None \<or>
            (array (table_run t0 xs) \<noteq> None \<and> malloc_ok \<and> realloc_ok) \<longrightarrow>
          g_hash_table_lookup (g_hash_table_insert malloc_ok realloc_ok (table_run t0 xs) k v) k = v) \<and>
         (g_hash_table_lookup_extended (table_run t0 xs) k = None \<and> \<not> (malloc_ok \<and> realloc_ok) \<longrightarrow>
          g_hash_table_insert malloc_ok realloc_ok (table_run t0 xs) k v = table_run t0 xs)"
proof -
  have sym: "\<forall>x y. cmp x y \<longrightarrow> cmp y x" and refl: "\<forall>x. cmp x x"
    using assms(1) by (auto elim: equivp_symp intro: equivp_reflp)
  have inv: "table_inv cmp (table_run t0 xs)"
    using assms(2) sym by (intro table_run_inv g_hash_table_new_inv)
  have "no_equal_keys cmp (stored_keys (table_run t0 xs))"
    using inv by (auto simp: table_inv_def array_inv_def stored_keys_def split: option.splits)
  moreover have "g_hash_table_lookup_extended (table_run t0 xs) k \<noteq> None \<or>
            (array (table_run t0 xs) \<noteq> None \<and> malloc_ok \<and> realloc_ok) \<longrightarrow>
          g_hash_table_lookup (g_hash_table_insert malloc_ok realloc_ok (table_run t0 xs) k v) k = v"
    using insert_then_lookup [OF inv refl] by blast
  moreover have "g_hash_table_lookup_extended (table_run t0 xs) k = None \<and> \<not> (malloc_ok \<and> realloc_ok) \<longrightarrow>
          g_hash_table_insert malloc_ok realloc_ok (table_run t0 xs) k v = table_run t0 xs"
    using insert_failed_unchanged [of "table_run t0 xs" k malloc_ok realloc_ok v] by blast
  ultimately show ?thesis by (intro conjI)
qed

lemma insert_example:
  "table_run \<lparr>compare = (=), array = Some \<lparr>len = 0, pdata = []\<rparr>\<rparr> [Insert True True 5 120]
     = \<lparr>compare = (=), array = Some \<lparr>len = 1, pdata = [Some \<lparr>key = 5, val = 120\<rparr>]\<rparr>\<rparr>"
  by (simp add: table_run_def g_hash_table_insert_def insert_loop.simps g_ptr_array_add_def)

text \<open>
  The example of the specification, with equality of handles: after insert(5, 120), an
  insert of (5, 121) needs no allocation, lookup returns 121 and one key is stored.
\<close>

theorem g_hash_table_unique_keys_witness:
  "equivp ((=) :: gpointer \<Rightarrow> gpointer \<Rightarrow> bool) \<and>
   g_hash_table_new True True (=) = Some \<lparr>compare = (=), array = Some \<lparr>len = 0, pdata = []\<rparr>\<rparr> \<and>
   no_equal_keys (=)
     (stored_keys (table_run \<lparr>compare = (=), array = Some \<lparr>len = 0, pdata = []\<rparr>\<rparr>
        [Insert True True 5 120])) \<and>
   g_hash_table_lookup_extended
     (table_run \<lparr>compare = (=), array = Some \<lparr>len = 0, pdata = []\<rparr>\<rparr> [Insert True True 5 120]) 5
     = Some (5, 120) \<and>
   g_hash_table_lookup
     (g_hash_table_insert False False
        (table_run \<lparr>compare = (=), array = Some \<lparr>len = 0, pdata = []\<rparr>\<rparr> [Insert True True 5 120])
        5 121) 5 = 121 \<and>
   stored_keys
     (g_hash_table_insert False False
        (table_run \<lparr>compare = (=), array = Some \<lparr>len = 0, pdata = []\<rparr>\<rparr> [Insert True True 5 120])
        5 121) = [5]"
proof -
  let ?new = "\<lparr>compare = (=), array = Some \<lparr>len = 0, pdata = []\<rparr>\<rparr>"
  let ?tab = "table_run ?new [Insert True True 5 120]"
  have h1: "equivp ((=) :: gpointer \<Rightarrow> gpointer \<Rightarrow> bool)" by (rule identity_equivp)
  have h2: "g_hash_table_new True True (=) = Some ?new"
    by (simp add: g_hash_table_new_def g_ptr_array_new_def)
  have h3: "g_hash_table_lookup_extended ?tab 5 = Some (5, 120)"
    by (simp add: insert_example g_hash_table_lookup_extended_def lookup_loop.simps
        entry_matches_def)
  have h4: "stored_keys (g_hash_table_insert False False ?tab 5 121) = [5]"
    by (simp add: insert_example g_hash_table_insert_def insert_loop.simps entry_matches_def
        stored_keys_def elements_def)
  from g_hash_table_unique_keys [OF h1 h2, of "[Insert True True 5 120]" 5 False False 121] h3
  have "no_equal_keys (=) (stored_keys ?tab)"
    and "g_hash_table_lookup (g_hash_table_insert False False ?tab 5 121) 5 = 121"
    by simp_all
  then show ?thesis using h1 h2 h3 h4 by blast
qed

text \<open>
  Claim C2 as stated fails when the entry record cannot be allocated
  (\<^verbatim>\<open>if (entry) { ... }\<close>): the insert does nothing and the lookup returns
  \<^verbatim>\<open>NULL\<close>.
\<close>

theorem g_hash_table_unique_keys_counterexample:
  "g_hash_table_new True True (=) = Some \<lparr>compare = (=), array = Some \<lparr>len = 0, pdata = []\<rparr>\<rparr> \<and>
   g_hash_table_lookup
     (g_hash_table_insert False True \<lparr>compare = (=), array = Some \<lparr>len = 0, pdata = []\<rparr>\<rparr> 5 7) 5
     = NULL \<and>
   NULL \<noteq> 7"
  by (simp add: g_hash_table_new_def g_ptr_array_new_def g_hash_table_insert_def insert_loop.simps
      g_hash_table_lookup_def lookup_loop.simps NULL_def)

end
